theory Spec2Isabelle
  imports Complex_Main
begin

section \<open>Common conventions\<close>

text \<open>
  Python exceptions are values: every function that can raise returns \<open>error + 'a\<close>, with
  \<open>Inl\<close> carrying the exception. Integer counts are \<open>int\<close> or \<open>nat\<close>. A float64 value
  is the real number it stands for; the arithmetic of the detection efficiency matrix
  rounds every result to float64 (section below), the coordinates of catalog rows are
  computed in exact arithmetic.
\<close>

datatype error =
    ValueError
  | IndexError
  | IOError
  | MissingWldCatalogName

section \<open>Float64 arithmetic\<close>

text \<open>
  IEEE 754 binary64 with round-to-nearest, ties-to-even. A number \<open>x\<close> with
  \<open>2^e \<le> |x| < 2^(e+1)\<close> is rounded to a multiple of \<open>2^(e-52)\<close> (53 significant bits);
  below the smallest normal number \<open>2^(-1022)\<close> the spacing stays \<open>2^(-1074)\<close>. Overflow to
  infinity is not represented: the numbers rounded below are counts, quotients in
  \<open>[0, 1]\<close> and percentages in \<open>[0, 100]\<close>.
\<close>

definition pow2 :: "int \<Rightarrow> real" where
  "pow2 k = (if 0 \<le> k then 2 ^ nat k else 1 / 2 ^ nat (- k))"

definition round_half_even :: "real \<Rightarrow> int" where
  "round_half_even y =
     (let f = \<lfloor>y\<rfloor>; r = y - of_int f
      in if r < 1 / 2 then f
         else if r > 1 / 2 then f + 1
         else if even f then f else f + 1)"

definition float_exponent :: "real \<Rightarrow> int" where
  "float_exponent x = max \<lfloor>log 2 \<bar>x\<bar>\<rfloor> (- 1022)"

definition round64 :: "real \<Rightarrow> real" where
  "round64 x =
     (if x = 0 then 0
      else (let ulp = pow2 (float_exponent x - 52)
            in of_int (round_half_even (x / ulp)) * ulp))"

text \<open>The float64 operations \<open>+\<close>, \<open>/\<close> and \<open>*\<close>: the exact result, rounded.\<close>

definition fl_add :: "real \<Rightarrow> real \<Rightarrow> real" where
  "fl_add x y = round64 (x + y)"

definition fl_div :: "real \<Rightarrow> real \<Rightarrow> real" where
  "fl_div x y = round64 (x / y)"

definition fl_mul :: "real \<Rightarrow> real \<Rightarrow> real" where
  "fl_mul x y = round64 (x * y)"

section \<open>Detection efficiency matrix (\<open>btk/utils.py\<close>, \<open>get_detection_eff_matrix\<close>)\<close>

text \<open>
  The summary table is a two-dimensional integer array; a row is the list of its entries.
  Column 0 holds the number of true objects, column 1 the number of detected objects.
  The matrix returned is a float64 array.
\<close>

type_synonym summary_table = "int list list"

text \<open>\<open>np.where(col == v)\<close>: the positions of \<open>col\<close> holding \<open>v\<close>, in increasing order.\<close>

definition np_where_eq :: "int list \<Rightarrow> int \<Rightarrow> nat list" where
  "np_where_eq col v = filter (\<lambda>k. col ! k = v) [0..<length col]"

text \<open>\<open>summary_table[:, c]\<close> and \<open>summary_table[q, c]\<close>.\<close>

definition column :: "summary_table \<Rightarrow> nat \<Rightarrow> int list" where
  "column t c = map (\<lambda>r. r ! c) t"

definition column_at :: "summary_table \<Rightarrow> nat list \<Rightarrow> nat \<Rightarrow> int list" where
  "column_at t q c = map (\<lambda>k. (t ! k) ! c) q"

text \<open>\<open>np.zeros((rows, cols))\<close> and the assignment \<open>m[j, i] = v\<close>.\<close>

definition np_zeros :: "nat \<Rightarrow> nat \<Rightarrow> real list list" where
  "np_zeros rows cols = replicate rows (replicate cols 0)"

definition set_entry :: "real list list \<Rightarrow> nat \<Rightarrow> nat \<Rightarrow> real \<Rightarrow> real list list" where
  "set_entry m j i v = m[j := (m ! j)[i := v]]"

text \<open>
  The inner loop \<open>for j in range(0, num + 2)\<close> for a fixed column \<open>i\<close> and the outer loop
  \<open>for i in range(0, num + 1)\<close>; both thread the matrix being filled. The assignment
  \<open>eff_matrix[j, i] = len(q_det)\<close> converts the integer to float64.
\<close>

definition fill_column :: "summary_table \<Rightarrow> nat \<Rightarrow> nat \<Rightarrow> real list list \<Rightarrow> real list list" where
  "fill_column t nrows i m =
     (let q_true = np_where_eq (column t 0) (int i)
      in fold (\<lambda>j m'.
                 if length q_true > 0
                 then (let q_det = np_where_eq (column_at t q_true 1) (int j)
                       in set_entry m' j i (round64 (real (length q_det))))
                 else m')
              [0..<nrows] m)"

definition fill_matrix :: "summary_table \<Rightarrow> nat \<Rightarrow> nat \<Rightarrow> real list list" where
  "fill_matrix t nrows ncols =
     fold (\<lambda>i m. fill_column t nrows i m) [0..<ncols] (np_zeros nrows ncols)"

text \<open>
  \<open>np.sum(m, axis=0)\<close> for a matrix with \<open>ncols\<close> columns: the rows are added one after
  the other in float64 (starting from zero or from the first row is the same float64
  value).
\<close>

definition sum_axis0 :: "nat \<Rightarrow> real list list \<Rightarrow> real list" where
  "sum_axis0 ncols m = map (\<lambda>i. foldl fl_add 0 (map (\<lambda>row. row ! i) m)) [0..<ncols]"

text \<open>\<open>norm[norm == 0.] = 1\<close>.\<close>

definition zero_to_one :: "real list \<Rightarrow> real list" where
  "zero_to_one nrm = map (\<lambda>x. if x = 0 then 1 else x) nrm"

text \<open>
  \<open>eff_matrix / norm[np.newaxis, :] * 100.\<close>: each row is divided entrywise, then
  multiplied by 100; both are float64 operations. No divisor is zero after the step
  before.
\<close>

definition normalize_columns :: "real list list \<Rightarrow> real list \<Rightarrow> real list list" where
  "normalize_columns m nrm =
     map (\<lambda>row. map (\<lambda>(e, n). fl_mul (fl_div e n) 100) (zip row nrm)) m"

text \<open>
  \<open>np.zeros\<close> raises ValueError on a negative dimension, that is when \<open>num + 1 < 0\<close>.
  The function reads columns 0 and 1; NumPy raises IndexError at the first read of a
  missing column, and the model rejects a table with a row of fewer than two entries
  before the loops.
\<close>

definition get_detection_eff_matrix :: "summary_table \<Rightarrow> int \<Rightarrow> error + real list list" where
  "get_detection_eff_matrix summary_table num =
     (if num + 1 < 0 then Inl ValueError
      else if \<not> list_all (\<lambda>r. 2 \<le> length r) summary_table then Inl IndexError
      else
        (let nrows = nat (num + 2);
             ncols = nat (num + 1);
             eff_matrix = fill_matrix summary_table nrows ncols;
             nrm = zero_to_one (sum_axis0 ncols eff_matrix)
         in Inr (normalize_columns eff_matrix nrm)))"

text \<open>
  The quantities the specification speaks about, written from its words: the number of
  rows with true count \<open>i\<close> and detected count \<open>j\<close>, the number of rows with true count
  \<open>i\<close>, and the entry the specification announces (\<open>spec_eff_entry\<close>, a real number). The
  matrix only has rows for the detected counts \<open>0..num + 1\<close>; \<open>binned_count\<close> counts the
  rows with true count \<open>i\<close> whose detected count falls in that range, and
  \<open>binned_eff_entry\<close> is the float64 percentage normalised by it.
\<close>

definition pair_count :: "summary_table \<Rightarrow> int \<Rightarrow> int \<Rightarrow> nat" where
  "pair_count t i j = length (filter (\<lambda>r. r ! 0 = i \<and> r ! 1 = j) t)"

definition true_count :: "summary_table \<Rightarrow> int \<Rightarrow> nat" where
  "true_count t i = length (filter (\<lambda>r. r ! 0 = i) t)"

definition binned_count :: "summary_table \<Rightarrow> int \<Rightarrow> int \<Rightarrow> nat" where
  "binned_count t num i = length (filter (\<lambda>r. r ! 0 = i \<and> 0 \<le> r ! 1 \<and> r ! 1 \<le> num + 1) t)"

definition spec_eff_entry :: "summary_table \<Rightarrow> int \<Rightarrow> int \<Rightarrow> real" where
  "spec_eff_entry t i j =
     (if true_count t i = 0 then 0
      else 100 * real (pair_count t i j) / real (true_count t i))"

definition binned_eff_entry :: "summary_table \<Rightarrow> int \<Rightarrow> int \<Rightarrow> int \<Rightarrow> real" where
  "binned_eff_entry t num i j =
     (if binned_count t num i = 0 then 0
      else fl_mul (fl_div (real (pair_count t i j)) (real (binned_count t num i))) 100)"

section \<open>Catalogs, parameters and randomness\<close>

text \<open>
  A catalog is an astropy table; a row carries the columns the functions below read or
  write. Column values are float64 in the source and \<open>real\<close> here.
\<close>

record galaxy =
  galtileid :: int
  ra :: real
  dec :: real
  fluxnorm_bulge :: real
  fluxnorm_disk :: real
  a_d :: real
  a_b :: real
  i_ab :: real

type_synonym catalog = "galaxy list"

text \<open>
  The parameter object \<open>Args\<close>. The attribute \<open>wld_catalog_name\<close> may be absent
  (\<open>hasattr\<close> is tested), hence the option.
\<close>

record args =
  catalog_name :: string
  verbose :: bool
  max_number :: int
  stamp_size :: real
  pixel_scale :: real
  wld_catalog_name :: "string option"

text \<open>\<open>np.hypot\<close>, \<open>np.where(mask)\<close>, and indexing a table by an index array.\<close>

definition hypot :: "real \<Rightarrow> real \<Rightarrow> real" where
  "hypot x y = sqrt (x\<^sup>2 + y\<^sup>2)"

definition np_where :: "bool list \<Rightarrow> nat list" where
  "np_where cond = filter (\<lambda>k. cond ! k) [0..<length cond]"

definition rows_at :: "catalog \<Rightarrow> nat list \<Rightarrow> catalog" where
  "rows_at t q = map (\<lambda>k. t ! k) q"

text \<open>
  \<open>btk.create_blend_generator.get_random_center_shift(Args, number_of_shifts, maxshift)\<close>
  is defined in another module of the package; here it is a parameter of the samplers,
  returning the two arrays \<open>dx\<close> and \<open>dy\<close>.
\<close>

type_synonym center_shift = "args \<Rightarrow> nat \<Rightarrow> real \<Rightarrow> real list \<times> real list"

text \<open>
  The in-place addition \<open>col += d\<close> of an array to a table column: NumPy broadcasts \<open>d\<close>
  when it has one element, adds entrywise when the lengths agree, and raises ValueError
  otherwise.
\<close>

definition offset_at :: "real list \<Rightarrow> nat \<Rightarrow> nat \<Rightarrow> real" where
  "offset_at d n k = (if length d = n then d ! k else hd d)"

definition iadd :: "real list \<Rightarrow> real list \<Rightarrow> error + real list" where
  "iadd col d =
     (if length d = length col \<or> length d = 1
      then Inr (map (\<lambda>k. col ! k + offset_at d (length col) k) [0..<length col])
      else Inl ValueError)"

definition set_ra :: "catalog \<Rightarrow> real list \<Rightarrow> catalog" where
  "set_ra t col = map (\<lambda>(g, x). g\<lparr>ra := x\<rparr>) (zip t col)"

definition set_dec :: "catalog \<Rightarrow> real list \<Rightarrow> catalog" where
  "set_dec t col = map (\<lambda>(g, x). g\<lparr>dec := x\<rparr>) (zip t col)"

definition iadd_ra :: "catalog \<Rightarrow> real list \<Rightarrow> error + catalog" where
  "iadd_ra t d = (case iadd (map ra t) d of Inl e \<Rightarrow> Inl e | Inr col \<Rightarrow> Inr (set_ra t col))"

definition iadd_dec :: "catalog \<Rightarrow> real list \<Rightarrow> error + catalog" where
  "iadd_dec t d = (case iadd (map dec t) d of Inl e \<Rightarrow> Inl e | Inr col \<Rightarrow> Inr (set_dec t col))"

text \<open>
  Randomness. The generator's raw draws are inputs; each NumPy call reduces its raw draw
  into the range of its possible outcomes, so that every outcome of the call is the image
  of some raw draw and no raw draw is invalid.

  \<open>np.random.choice(a, size=n)\<close> draws with replacement and raises ValueError on an empty
  \<open>a\<close>.  \<open>np.random.choice(a, n, replace=False)\<close> draws \<open>n\<close> distinct positions: each
  draw removes the chosen element from the pool.
\<close>

definition choice :: "(nat \<Rightarrow> nat) \<Rightarrow> nat list \<Rightarrow> nat \<Rightarrow> error + nat list" where
  "choice raw a n =
     (if a = [] then Inl ValueError
      else Inr (map (\<lambda>k. a ! (raw k mod length a)) [0..<n]))"

fun choice_no_replace :: "(nat \<Rightarrow> nat) \<Rightarrow> nat list \<Rightarrow> nat \<Rightarrow> nat list" where
  "choice_no_replace raw pool 0 = []"
| "choice_no_replace raw pool (Suc n) =
     (if pool = [] then []
      else (let k = raw 0 mod length pool
            in pool ! k # choice_no_replace (\<lambda>i. raw (Suc i)) (take k pool @ drop (Suc k) pool) n))"

section \<open>Selection cuts (\<open>btk/utils.py\<close>, \<open>basic_selection_function\<close>)\<close>

text \<open>
  The second-moment size \<open>r_sec\<close> of a row. In float64 the quotient \<open>f\<close> is NaN or
  infinite when the two fluxes sum to zero, and a negative base raised to \<open>0.5\<close> is NaN;
  in each of these cases \<open>r_sec\<close> is NaN or \<open>+inf\<close> and the comparison \<open>r_sec <= 4\<close> is
  False. \<open>None\<close> stands for such a value.
\<close>

definition r_sec :: "galaxy \<Rightarrow> real option" where
  "r_sec g =
     (let s = fluxnorm_disk g + fluxnorm_bulge g
      in if s = 0 then None
         else (let f = fluxnorm_bulge g / s
               in if 1 - f < 0 \<or> f < 0 then None
                  else Some (hypot (a_d g * sqrt (1 - f) * 4.66) (a_b g * sqrt f * 1.46))))"

definition selection_cut :: "galaxy \<Rightarrow> bool" where
  "selection_cut g = (case r_sec g of None \<Rightarrow> False | Some r \<Rightarrow> r \<le> 4 \<and> i_ab g \<le> 27)"

definition basic_selection_function :: "catalog \<Rightarrow> catalog" where
  "basic_selection_function catalog =
     (let q = np_where (map selection_cut catalog) in rows_at catalog q)"

section \<open>Blend samplers (\<open>btk/utils.py\<close>)\<close>

subsection \<open>\<open>basic_sampling_function\<close>\<close>

record basic_draws =
  raw_number :: nat
  raw_uniform :: real
  raw_bright :: "nat \<Rightarrow> nat"
  raw_others :: "nat \<Rightarrow> nat"

text \<open>
  \<open>np.random.randint(0, max_number)\<close> raises ValueError unless \<open>0 < max_number\<close>.
  The first \<open>choice\<close> is evaluated before the second, so an empty \<open>q_bright\<close> raises
  first; \<open>q\<close> contains \<open>q_bright\<close>, so the second never sees an empty array.
\<close>

definition size_cond :: "galaxy \<Rightarrow> bool" where
  "size_cond g = (let a = hypot (a_d g) (a_b g) in a \<le> 2 \<and> a > 0.2)"

definition q_bright_rows :: "catalog \<Rightarrow> nat list" where
  "q_bright_rows catalog = np_where (map (\<lambda>g. size_cond g \<and> i_ab g \<le> 24) catalog)"

definition q_rows :: "real \<Rightarrow> catalog \<Rightarrow> nat list" where
  "q_rows u catalog =
     (if u \<ge> 0.9
      then np_where (map (\<lambda>g. size_cond g \<and> i_ab g < 28) catalog)
      else np_where (map (\<lambda>g. size_cond g \<and> i_ab g \<le> 25.3) catalog))"

definition basic_maxshift :: "args \<Rightarrow> nat \<Rightarrow> real" where
  "basic_maxshift Args number_of_objects =
     stamp_size Args / 30 * sqrt (real number_of_objects)"

definition basic_sampling_function ::
  "center_shift \<Rightarrow> basic_draws \<Rightarrow> args \<Rightarrow> catalog \<Rightarrow> error + catalog" where
  "basic_sampling_function get_random_center_shift rnd Args catalog =
     (if max_number Args \<le> 0 then Inl ValueError
      else
        (let number_of_objects = raw_number rnd mod nat (max_number Args);
             q_bright = q_bright_rows catalog;
             q = q_rows (raw_uniform rnd) catalog
         in case choice (raw_bright rnd) q_bright 1 of
              Inl e \<Rightarrow> Inl e
            | Inr first \<Rightarrow>
               (case choice (raw_others rnd) q number_of_objects of
                  Inl e \<Rightarrow> Inl e
                | Inr others \<Rightarrow>
                   (let stacked = rows_at catalog first @ rows_at catalog others;
                        blend_catalog = map (\<lambda>g. g\<lparr>ra := 0, dec := 0\<rparr>) stacked;
                        maxshift = basic_maxshift Args number_of_objects;
                        (dx, dy) = get_random_center_shift Args (number_of_objects + 1) maxshift
                    in case iadd_ra blend_catalog dx of
                         Inl e \<Rightarrow> Inl e
                       | Inr shifted \<Rightarrow> iadd_dec shifted dy))))"

text \<open>The shapes \<open>col += d\<close> accepts for a column of \<open>n\<close> entries.\<close>

definition shape_ok :: "real list \<Rightarrow> nat \<Rightarrow> bool" where
  "shape_ok d n = (length d = n \<or> length d = 1)"

subsection \<open>\<open>group_sampling_function\<close>\<close>

text \<open>
  A row of the pre-run WLD catalog, and the reader \<open>astropy.table.Table.read(name,
  format='fits')\<close> as a parameter: the file system is not part of the program. The reader
  yields \<open>None\<close> where reading raises.
\<close>

record wld_row =
  db_id :: int
  grp_id :: int
  grp_size :: int

type_synonym wld_reader = "string \<Rightarrow> wld_row list option"

record group_draws =
  raw_group :: nat
  raw_select :: "nat \<Rightarrow> nat"

text \<open>\<open>np.unique\<close>: the sorted distinct values. \<open>np.mean\<close> of a column.\<close>

definition np_unique :: "int list \<Rightarrow> int list" where
  "np_unique xs = sort (remdups xs)"

definition np_mean :: "real list \<Rightarrow> real" where
  "np_mean xs = sum_list xs / real (length xs)"

text \<open>
  Sampling a group: \<open>np.random.choice(group_ids, replace=False)\<close> returns one element and
  raises ValueError on an empty array.
\<close>

definition sample_group_id :: "group_draws \<Rightarrow> wld_row list \<Rightarrow> error + int" where
  "sample_group_id rnd wld_catalog =
     (let group_ids = np_unique (map grp_id (filter (\<lambda>w. grp_size w \<ge> 2) wld_catalog))
      in if group_ids = [] then Inl ValueError
         else Inr (group_ids ! (raw_group rnd mod length group_ids)))"

text \<open>
  All galaxies of the group: \<open>vstack\<close> concatenates the per-id selections in the order
  of \<open>ids\<close>.
\<close>

definition group_members :: "wld_row list \<Rightarrow> int \<Rightarrow> catalog \<Rightarrow> catalog" where
  "group_members wld_catalog group_id catalog =
     (let ids = map db_id (filter (\<lambda>w. grp_id w = group_id) wld_catalog)
      in concat (map (\<lambda>i. filter (\<lambda>g. galtileid g = i) catalog) ids))"

text \<open>
  The group's mean is moved to the stamp centre and degrees become arcseconds. On an
  empty table \<open>np.mean\<close> is NaN, and is applied to no row.
\<close>

definition recentre :: "catalog \<Rightarrow> catalog" where
  "recentre blend_catalog =
     (let m_ra = np_mean (map ra blend_catalog);
          t1 = map (\<lambda>g. g\<lparr>ra := ra g - m_ra\<rparr>) blend_catalog;
          m_dec = np_mean (map dec t1);
          t2 = map (\<lambda>g. g\<lparr>dec := dec g - m_dec\<rparr>) t1;
          t3 = map (\<lambda>g. g\<lparr>ra := ra g * 3600\<rparr>) t2
      in map (\<lambda>g. g\<lparr>dec := dec g * 3600\<rparr>) t3)"

text \<open>The small random shift of the whole group.\<close>

definition shift_group :: "center_shift \<Rightarrow> args \<Rightarrow> catalog \<Rightarrow> error + catalog" where
  "shift_group get_random_center_shift Args blend_catalog =
     (let (dx, dy) = get_random_center_shift Args 1 (3 * pixel_scale Args)
      in case iadd_ra blend_catalog dx of
           Inl e \<Rightarrow> Inl e
         | Inr t1 \<Rightarrow> iadd_dec t1 dy)"

text \<open>
  The boundary cut and the final selection. \<open>np.random.choice(range(n), num,
  replace=False)\<close> raises ValueError on a negative \<open>num\<close>.
\<close>

definition in_stamp :: "args \<Rightarrow> galaxy \<Rightarrow> bool" where
  "in_stamp Args g =
     (\<bar>ra g\<bar> < stamp_size Args / 2 - 3 \<and> \<bar>dec g\<bar> < stamp_size Args / 2 - 3)"

definition cut_and_select :: "group_draws \<Rightarrow> args \<Rightarrow> catalog \<Rightarrow> error + catalog" where
  "cut_and_select rnd Args blend_catalog =
     (let no_boundary = filter (in_stamp Args) blend_catalog
      in if length no_boundary = 0 then Inr no_boundary
         else
           (let num = min (int (length no_boundary)) (max_number Args)
            in if num < 0 then Inl ValueError
               else
                 (let select = choice_no_replace (raw_select rnd)
                                 [0..<length no_boundary] (nat num)
                  in Inr (rows_at no_boundary select))))"

definition group_sampling_function ::
  "wld_reader \<Rightarrow> center_shift \<Rightarrow> group_draws \<Rightarrow> args \<Rightarrow> catalog \<Rightarrow> error + catalog" where
  "group_sampling_function table_read get_random_center_shift rnd Args catalog =
     (case wld_catalog_name Args of
        None \<Rightarrow> Inl MissingWldCatalogName
      | Some name \<Rightarrow>
         (case table_read name of
            None \<Rightarrow> Inl IOError
          | Some wld_catalog \<Rightarrow>
             (case sample_group_id rnd wld_catalog of
                Inl e \<Rightarrow> Inl e
              | Inr group_id \<Rightarrow>
                 (let blend_catalog = recentre (group_members wld_catalog group_id catalog)
                  in case shift_group get_random_center_shift Args blend_catalog of
                       Inl e \<Rightarrow> Inl e
                     | Inr shifted \<Rightarrow> cut_and_select rnd Args shifted))))"

section \<open>Catalog loader (\<open>btk/get_input_catalog.py\<close>, \<open>load_catalog\<close>)\<close>

text \<open>
  The two formats \<open>astropy.table.Table.read\<close> is called with. The reader itself and
  \<open>os.path.splitext\<close> belong to the libraries and the file system; they are parameters.
  The reader yields \<open>None\<close> where reading raises. The table type is left open.
\<close>

datatype table_format = Fits | AsciiBasic

text \<open>
  The result is the list of lines printed (only when \<open>Args.verbose\<close>) and the value
  returned or the exception raised. A selection function is any function on tables, and
  may raise.
\<close>

definition catalog_format :: "(string \<Rightarrow> string \<times> string) \<Rightarrow> args \<Rightarrow> table_format" where
  "catalog_format splitext Args =
     (let (name, ext) = splitext (catalog_name Args)
      in if ext = ''.fits'' then Fits else AsciiBasic)"

definition load_catalog ::
  "(string \<Rightarrow> string \<times> string) \<Rightarrow> (string \<Rightarrow> table_format \<Rightarrow> 'tbl option) \<Rightarrow> args
     \<Rightarrow> ('tbl \<Rightarrow> error + 'tbl) option \<Rightarrow> string list \<times> (error + 'tbl)" where
  "load_catalog splitext table_read Args selection_function =
     (case table_read (catalog_name Args) (catalog_format splitext Args) of
        None \<Rightarrow> ([], Inl IOError)
      | Some table \<Rightarrow>
         (let printed = (if verbose Args then [''Catalog loaded''] else [])
          in case selection_function of
               Some f \<Rightarrow>
                 (printed @ (if verbose Args
                             then [''Selection criterion applied to input catalog''] else []),
                  f table)
             | None \<Rightarrow> (printed, Inr table)))"

text \<open>
  A model of the standard library's \<open>posixpath.splitext\<close>, used to evaluate examples:
  the extension starts at the last dot of the last path component, unless that component
  has only leading dots before it.
\<close>

definition rfind :: "char \<Rightarrow> string \<Rightarrow> int" where
  "rfind c p =
     (case filter (\<lambda>k. p ! k = c) [0..<length p] of
        [] \<Rightarrow> - 1
      | k # ks \<Rightarrow> int (last (k # ks)))"

definition posix_splitext :: "string \<Rightarrow> string \<times> string" where
  "posix_splitext p =
     (let sepIndex = rfind (CHR ''/'') p;
          dotIndex = rfind (CHR ''.'') p
      in if dotIndex > sepIndex
            \<and> list_ex (\<lambda>k. p ! k \<noteq> CHR ''.'') [nat (sepIndex + 1)..<nat dotIndex]
         then (take (nat dotIndex) p, drop (nat dotIndex) p)
         else (p, []))"

section \<open>Example data\<close>

text \<open>Concrete rows, parameters and draws on which the functions are evaluated below.\<close>

definition ex_bright :: galaxy where
  "ex_bright = \<lparr>galtileid = 1, ra = 10, dec = 20, fluxnorm_bulge = 0, fluxnorm_disk = 1,
                 a_d = 1 / 2, a_b = 0, i_ab = 23\<rparr>"

definition ex_faint :: galaxy where
  "ex_faint = \<lparr>galtileid = 2, ra = 20481 / 2048, dec = 40961 / 2048, fluxnorm_bulge = 1,
                fluxnorm_disk = 0,
                a_d = 0, a_b = 1, i_ab = 25\<rparr>"

definition ex_args :: args where
  "ex_args = \<lparr>catalog_name = ''sample_input_catalog.fits'', verbose = False, max_number = 2,
               stamp_size = 24, pixel_scale = 0.2, wld_catalog_name = None\<rparr>"

definition ex_shift :: center_shift where
  "ex_shift Args n maxshift = (replicate n (1 / 2), replicate n (- 1 / 2))"

definition ex_draws_one :: basic_draws where
  "ex_draws_one = \<lparr>raw_number = 0, raw_uniform = 0, raw_bright = (\<lambda>k. 0), raw_others = (\<lambda>k. 1)\<rparr>"

definition ex_draws_two :: basic_draws where
  "ex_draws_two = \<lparr>raw_number = 1, raw_uniform = 0, raw_bright = (\<lambda>k. 0), raw_others = (\<lambda>k. 1)\<rparr>"

definition ex_noflux :: galaxy where
  "ex_noflux = \<lparr>galtileid = 3, ra = 11, dec = 21, fluxnorm_bulge = 0, fluxnorm_disk = 0,
                 a_d = 0, a_b = 1, i_ab = 25\<rparr>"

definition ex_wld :: "wld_row list" where
  "ex_wld = [\<lparr>db_id = 1, grp_id = 7, grp_size = 2\<rparr>, \<lparr>db_id = 2, grp_id = 7, grp_size = 2\<rparr>,
             \<lparr>db_id = 5, grp_id = 9, grp_size = 1\<rparr>]"

definition ex_reader :: wld_reader where
  "ex_reader name =
     (if name = ''wld.fits'' then Some ex_wld
      else if name = ''isolated.fits'' then Some [\<lparr>db_id = 5, grp_id = 9, grp_size = 1\<rparr>]
      else None)"

definition ex_group_args :: args where
  "ex_group_args = ex_args\<lparr>wld_catalog_name := Some ''wld.fits''\<rparr>"

definition ex_small_stamp_args :: args where
  "ex_small_stamp_args = ex_group_args\<lparr>stamp_size := 6\<rparr>"

definition ex_isolated_args :: args where
  "ex_isolated_args = ex_args\<lparr>wld_catalog_name := Some ''isolated.fits''\<rparr>"

definition ex_group_draws :: group_draws where
  "ex_group_draws = \<lparr>raw_group = 0, raw_select = (\<lambda>k. 0)\<rparr>"

definition ex_table_read :: "string \<Rightarrow> table_format \<Rightarrow> catalog option" where
  "ex_table_read name fmt =
     (if name = ''sample_input_catalog.fits'' \<and> fmt = Fits
      then Some [ex_bright, ex_faint, ex_noflux] else None)"

section \<open>Properties of float64 rounding\<close>

lemma pow2_powr: "pow2 k = 2 powr (of_int k)"
proof (cases "0 \<le> k")
  case True
  then have "2 powr (of_int k) = (2::real) powr (real (nat k))" by simp
  also have "\<dots> = 2 ^ nat k" by (simp add: powr_realpow)
  finally show ?thesis using True by (simp add: pow2_def)
next
  case False
  then have "(2::real) powr (of_int k) = 2 powr (- real (nat (- k)))" by simp
  also have "\<dots> = 1 / 2 powr (real (nat (- k)))" by (simp add: powr_minus divide_inverse)
  also have "\<dots> = 1 / 2 ^ nat (- k)" by (simp add: powr_realpow)
  finally show ?thesis using False by (simp add: pow2_def)
qed

lemma pow2_pos: "0 < pow2 k"
  by (simp add: pow2_powr)

lemma pow2_add: "pow2 (a + b) = pow2 a * pow2 b"
  by (simp add: pow2_powr powr_add)

lemma pow2_mono: "a \<le> b \<Longrightarrow> pow2 a \<le> pow2 b"
  by (simp add: pow2_powr)

lemma pow2_le_floor_log:
  assumes "x > 0"
  shows "pow2 \<lfloor>log 2 x\<rfloor> \<le> x" "x < pow2 (\<lfloor>log 2 x\<rfloor> + 1)"
proof -
  have "of_int \<lfloor>log 2 x\<rfloor> \<le> log 2 x" by simp
  then have "2 powr (of_int \<lfloor>log 2 x\<rfloor>) \<le> 2 powr (log 2 x)"
    by (simp only: powr_le_cancel_iff) 
  then show "pow2 \<lfloor>log 2 x\<rfloor> \<le> x"
    using assms by (simp add: pow2_powr)
  have "log 2 x < of_int (\<lfloor>log 2 x\<rfloor> + 1)" by linarith
  then have "2 powr (log 2 x) < 2 powr (of_int (\<lfloor>log 2 x\<rfloor> + 1))"
    by (simp only: powr_less_cancel_iff)
  then show "x < pow2 (\<lfloor>log 2 x\<rfloor> + 1)"
    using assms by (simp add: pow2_powr)
qed

lemma floor_log_eqI:
  assumes "pow2 e \<le> x" "x < pow2 (e + 1)"
  shows "\<lfloor>log 2 x\<rfloor> = e"
proof -
  have x: "x > 0" using assms(1) pow2_pos [of e] by linarith
  have "2 powr (of_int e) \<le> 2 powr (log 2 x)" using assms(1) x by (simp add: pow2_powr)
  then have a: "of_int e \<le> log 2 x" by (simp only: powr_le_cancel_iff)
  have "2 powr (log 2 x) < 2 powr (of_int (e + 1))" using assms(2) x by (simp add: pow2_powr)
  then have b: "log 2 x < of_int (e + 1)" by (simp only: powr_less_cancel_iff)
  show ?thesis using a b by linarith
qed

lemma round_half_even_int [simp]: "round_half_even (of_int z) = z"
  by (simp add: round_half_even_def)

lemma round_half_even_error: "\<bar>of_int (round_half_even y) - y\<bar> \<le> 1 / 2"
  unfolding round_half_even_def Let_def
  by (auto simp: abs_if) linarith+

text \<open>Evaluating \<open>round64\<close> at a number whose binade is known.\<close>

lemma round64_binade:
  assumes "- 1022 \<le> e" "pow2 e \<le> \<bar>x\<bar>" "\<bar>x\<bar> < pow2 (e + 1)"
  shows "round64 x = of_int (round_half_even (x / pow2 (e - 52))) * pow2 (e - 52)"
proof -
  have "x \<noteq> 0" using assms(2) pow2_pos [of e] by auto
  moreover have "float_exponent x = e"
    unfolding float_exponent_def using floor_log_eqI [OF assms(2,3)] assms(1) by simp
  ultimately show ?thesis by (simp add: round64_def Let_def)
qed

lemma round64_error:
  assumes "pow2 (- 1022) \<le> \<bar>x\<bar>"
  shows "\<bar>round64 x - x\<bar> \<le> \<bar>x\<bar> / 2 ^ 53"
proof -
  have x: "\<bar>x\<bar> > 0" using assms pow2_pos [of "- 1022"] by linarith
  define e where "e = \<lfloor>log 2 \<bar>x\<bar>\<rfloor>"
  have lo: "pow2 e \<le> \<bar>x\<bar>" and hi: "\<bar>x\<bar> < pow2 (e + 1)"
    unfolding e_def using pow2_le_floor_log [OF x] by auto
  have "pow2 (- 1022) < pow2 (e + 1)" using assms hi by linarith
  then have "- 1022 < e + 1"
    using pow2_mono [of "e + 1" "- 1022"] by (cases "- 1022 < e + 1") auto
  then have e: "- 1022 \<le> e" by simp
  define ulp where "ulp = pow2 (e - 52)"
  have r: "round64 x = of_int (round_half_even (x / ulp)) * ulp"
    unfolding ulp_def by (rule round64_binade [OF e lo hi])
  have up: "ulp > 0" unfolding ulp_def by (rule pow2_pos)
  have "round64 x - x = (of_int (round_half_even (x / ulp)) - x / ulp) * ulp"
    using up by (simp add: r algebra_simps)
  then have "\<bar>round64 x - x\<bar> = \<bar>of_int (round_half_even (x / ulp)) - x / ulp\<bar> * ulp"
    using up by (simp add: abs_mult)
  also have "\<dots> \<le> (1 / 2) * ulp"
    using round_half_even_error [of "x / ulp"] up by (intro mult_right_mono) auto
  also have "\<dots> = pow2 e / 2 ^ 53"
  proof -
    have "pow2 e = pow2 (e - 52) * pow2 52" using pow2_add [of "e - 52" 52] by simp
    then show ?thesis by (simp add: ulp_def pow2_def)
  qed
  also have "\<dots> \<le> \<bar>x\<bar> / 2 ^ 53"
    using lo by (simp add: divide_right_mono)
  finally show ?thesis .
qed

lemma round64_nat:
  assumes "n < 2 ^ 53"
  shows "round64 (real n) = real n"
proof (cases "n = 0")
  case True
  then show ?thesis by (simp add: round64_def)
next
  case False
  then have x: "real n > 0" by simp
  define e where "e = \<lfloor>log 2 (real n)\<rfloor>"
  have lo: "pow2 e \<le> \<bar>real n\<bar>" and hi: "\<bar>real n\<bar> < pow2 (e + 1)"
    unfolding e_def using pow2_le_floor_log [OF x] by auto
  have "1 \<le> real n" using False by simp
  then have "0 \<le> log 2 (real n)" by simp
  then have e0: "0 \<le> e" unfolding e_def by simp
  have "real n < 2 ^ 53" using assms by (metis of_nat_less_iff of_nat_numeral of_nat_power)
  then have "pow2 e < pow2 53" using lo by (simp add: pow2_def)
  then have "e < 53" using pow2_mono [of 53 e] by (cases "e < 53") auto
  then have e52: "e \<le> 52" by simp
  define k where "k = nat (52 - e)"
  have ulp: "pow2 (e - 52) = 1 / 2 ^ k"
    using e52 by (cases "e = 52") (auto simp: pow2_def k_def)
  have "real n / pow2 (e - 52) = of_int (int n * 2 ^ k)"
    by (simp add: ulp)
  then have "round_half_even (real n / pow2 (e - 52)) = int n * 2 ^ k"
    by (simp only: round_half_even_int)
  then show ?thesis
    using round64_binade [OF _ lo hi] e0 by (simp add: ulp)
qed

section \<open>Properties of the detection efficiency matrix\<close>

lemma filter_nth_upt: "map (\<lambda>k. xs ! k) (filter (\<lambda>k. P (xs ! k)) [0..<length xs]) = filter P xs"
proof -
  have "filter P xs = filter P (map (\<lambda>k. xs ! k) [0..<length xs])"
    by (simp add: map_nth)
  also have "\<dots> = map (\<lambda>k. xs ! k) (filter (\<lambda>k. P (xs ! k)) [0..<length xs])"
    by (simp add: filter_map comp_def)
  finally show ?thesis by simp
qed

lemma length_np_where_eq: "length (np_where_eq col v) = length (filter (\<lambda>x. x = v) col)"
proof -
  have "map (\<lambda>k. col ! k) (np_where_eq col v) = filter (\<lambda>x. x = v) col"
    unfolding np_where_eq_def by (rule filter_nth_upt [where P = "\<lambda>x. x = v" and xs = col])
  then have "length (map (\<lambda>k. col ! k) (np_where_eq col v)) = length (filter (\<lambda>x. x = v) col)"
    by (rule arg_cong)
  then show ?thesis by simp
qed

lemma column_at_true: 
  "column_at t (np_where_eq (column t 0) v) c = map (\<lambda>r. r ! c) (filter (\<lambda>r. r ! 0 = v) t)"
proof -
  have "np_where_eq (column t 0) v = filter (\<lambda>k. (t ! k) ! 0 = v) [0..<length t]"
    unfolding np_where_eq_def column_def
    by (auto intro: filter_cong)
  then have "column_at t (np_where_eq (column t 0) v) c
      = map (\<lambda>r. r ! c) (map (\<lambda>k. t ! k) (filter (\<lambda>k. (t ! k) ! 0 = v) [0..<length t]))"
    by (simp add: column_at_def comp_def)
  also have "map (\<lambda>k. t ! k) (filter (\<lambda>k. (t ! k) ! 0 = v) [0..<length t]) = filter (\<lambda>r. r ! 0 = v) t"
    by (rule filter_nth_upt)
  finally show ?thesis .
qed

lemma length_q_true: "length (np_where_eq (column t 0) v) = true_count t v"
  by (simp add: length_np_where_eq column_def true_count_def filter_map comp_def)

lemma length_q_det:
  "length (np_where_eq (column_at t (np_where_eq (column t 0) i) 1) j) = pair_count t i j"
  by (simp add: length_np_where_eq column_at_true pair_count_def filter_map comp_def conj_commute)

lemma pair_count_le_true_count: "pair_count t i j \<le> true_count t i"
  unfolding pair_count_def true_count_def
  by (induction t) auto

lemma fold_set_entry_length:
  "length (fold (\<lambda>j m'. set_entry m' j i (f j)) js m) = length m"
  by (induction js arbitrary: m) (simp_all add: set_entry_def)

lemma fold_set_entry_nth:
  assumes "n \<le> length m" "j < length m"
  shows "fold (\<lambda>j m'. set_entry m' j i (f j)) [0..<n] m ! j
          = (if j < n then (m ! j)[i := f j] else m ! j)"
  using assms
proof (induction n arbitrary: j)
  case 0
  then show ?case by simp
next
  case (Suc n)
  let ?m = "fold (\<lambda>j m'. set_entry m' j i (f j)) [0..<n] m"
  have len: "length ?m = length m" by (rule fold_set_entry_length)
  have ih: "?m ! k = (if k < n then (m ! k)[i := f k] else m ! k)" if "k < length m" for k
    using Suc.IH [of k] Suc.prems that by simp
  have "fold (\<lambda>j m'. set_entry m' j i (f j)) [0..<Suc n] m = set_entry ?m n i (f n)"
    by simp
  then show ?case
    using Suc.prems len ih
    by (auto simp: set_entry_def nth_list_update)
qed

lemma fold_id: "fold (\<lambda>j m'. m') js m = m"
  by (induction js) simp_all

lemma fill_column_alt:
  "fill_column t nrows i m =
     (if 0 < true_count t (int i)
      then fold (\<lambda>j m'. set_entry m' j i (round64 (real (pair_count t (int i) (int j))))) [0..<nrows] m
      else m)"
  unfolding fill_column_def Let_def length_q_det length_q_true
  by (simp add: fold_id)

lemma fill_column_length: "length (fill_column t nrows i m) = length m"
  by (simp add: fill_column_alt fold_set_entry_length)

lemma fill_column_nth:
  assumes "nrows \<le> length m" "j < length m"
  shows "fill_column t nrows i m ! j
          = (if j < nrows \<and> 0 < true_count t (int i)
             then (m ! j)[i := round64 (real (pair_count t (int i) (int j)))] else m ! j)"
  using assms by (simp add: fill_column_alt fold_set_entry_nth)

lemma fill_column_rows:
  assumes "\<forall>r\<in>set m. length r = c"
  shows "\<forall>r\<in>set (fill_column t nrows i m). length r = c"
proof -
  have "\<forall>r\<in>set (fold (\<lambda>j m'. set_entry m' j i (f j)) js m). length r = c" for f js
    using assms
  proof (induction js arbitrary: m)
    case Nil
    then show ?case by simp
  next
    case (Cons a js)
    have "\<forall>r\<in>set (set_entry m a i (f a)). length r = c"
    proof (cases "a < length m")
      case True
      then have "length ((m ! a)[i := f a]) = c"
        using Cons.prems by simp
      moreover have "set (set_entry m a i (f a)) \<subseteq> insert ((m ! a)[i := f a]) (set m)"
        unfolding set_entry_def by (rule set_update_subset_insert)
      ultimately show ?thesis
        using Cons.prems by auto
    next
      case False
      then have "set_entry m a i (f a) = m"
        by (simp add: set_entry_def list_update_beyond)
      then show ?thesis
        using Cons.prems by simp
    qed
    then show ?case using Cons.IH by simp
  qed
  then show ?thesis by (simp add: fill_column_alt assms)
qed

text \<open>The matrix after the outer loop has run over columns \<open>0..<k\<close>.\<close>

lemma fold_fill_column:
  assumes "length m = nrows" "\<forall>r\<in>set m. length r = ncols" "k \<le> ncols"
  shows "length (fold (\<lambda>i m. fill_column t nrows i m) [0..<k] m) = nrows
       \<and> (\<forall>r\<in>set (fold (\<lambda>i m. fill_column t nrows i m) [0..<k] m). length r = ncols)
       \<and> (\<forall>j<nrows. \<forall>i<ncols.
             fold (\<lambda>i m. fill_column t nrows i m) [0..<k] m ! j ! i
               = (if i < k \<and> 0 < true_count t (int i)
                  then round64 (real (pair_count t (int i) (int j))) else m ! j ! i))"
  using assms(3)
proof (induction k)
  case 0
  then show ?case using assms by simp
next
  case (Suc k)
  let ?m = "fold (\<lambda>i m. fill_column t nrows i m) [0..<k] m"
  have len: "length ?m = nrows" and rows: "\<forall>r\<in>set ?m. length r = ncols"
    and ent: "\<And>j i. j < nrows \<Longrightarrow> i < ncols \<Longrightarrow> ?m ! j ! i
               = (if i < k \<and> 0 < true_count t (int i)
                  then round64 (real (pair_count t (int i) (int j))) else m ! j ! i)"
    using Suc by simp_all
  have step: "fold (\<lambda>i m. fill_column t nrows i m) [0..<Suc k] m = fill_column t nrows k ?m"
    by simp
  have "\<forall>j<nrows. \<forall>i<ncols. fill_column t nrows k ?m ! j ! i
               = (if i < Suc k \<and> 0 < true_count t (int i)
                  then round64 (real (pair_count t (int i) (int j))) else m ! j ! i)"
  proof (intro allI impI)
    fix j i assume j: "j < nrows" and i: "i < ncols"
    have lj: "length (?m ! j) = ncols" using rows len j by simp
    show "fill_column t nrows k ?m ! j ! i
               = (if i < Suc k \<and> 0 < true_count t (int i)
                  then round64 (real (pair_count t (int i) (int j))) else m ! j ! i)"
      using j i len lj ent [OF j i] Suc.prems
      by (auto simp: fill_column_nth nth_list_update less_Suc_eq)
  qed
  then show ?case
    unfolding step using len rows by (simp add: fill_column_length fill_column_rows)
qed

lemma pair_count_zero: "true_count t i = 0 \<Longrightarrow> pair_count t i j = 0"
  using pair_count_le_true_count [of t i j] by simp

lemma fill_matrix_shape:
  "length (fill_matrix t nrows ncols) = nrows"
  "\<forall>r\<in>set (fill_matrix t nrows ncols). length r = ncols"
  using fold_fill_column [of "np_zeros nrows ncols" nrows ncols ncols t]
  by (simp_all add: fill_matrix_def np_zeros_def)

lemma fill_matrix_entry:
  assumes "j < nrows" "i < ncols"
  shows "fill_matrix t nrows ncols ! j ! i = round64 (real (pair_count t (int i) (int j)))"
  using fold_fill_column [of "np_zeros nrows ncols" nrows ncols ncols t] assms
  by (auto simp: fill_matrix_def np_zeros_def pair_count_zero round64_def)

lemma indicator_sum_upt:
  "(\<Sum>j\<leftarrow>[0..<n]. if x = int j then 1 else 0) = (if 0 \<le> x \<and> x < int n then (1::nat) else 0)"
  by (induction n) auto

lemma binned_count_sum:
  assumes "0 \<le> num + 1"
  shows "binned_count t num i = (\<Sum>j\<leftarrow>[0..<nat (num + 2)]. pair_count t i (int j))"
proof (induction t)
  case Nil
  then show ?case by (simp add: binned_count_def pair_count_def)
next
  case (Cons r t)
  have pc: "pair_count (r # t) i j = (if r ! 0 = i \<and> r ! 1 = j then 1 else 0) + pair_count t i j" for j
    by (simp add: pair_count_def)
  have "(\<Sum>j\<leftarrow>[0..<nat (num + 2)]. pair_count (r # t) i (int j))
      = (\<Sum>j\<leftarrow>[0..<nat (num + 2)]. if r ! 0 = i \<and> r ! 1 = int j then 1 else 0)
        + (\<Sum>j\<leftarrow>[0..<nat (num + 2)]. pair_count t i (int j))"
    by (simp add: pc sum_list_addf)
  also have "(\<Sum>j\<leftarrow>[0..<nat (num + 2)]. if r ! 0 = i \<and> r ! 1 = int j then 1 else 0)
      = (if r ! 0 = i \<and> 0 \<le> r ! 1 \<and> r ! 1 \<le> num + 1 then (1::nat) else 0)"
  proof (cases "r ! 0 = i")
    case True
    then show ?thesis
      using assms indicator_sum_upt [of "r ! 1" "nat (num + 2)"] by auto
  next
    case False
    then show ?thesis by simp
  qed
  finally show ?case
    using Cons.IH by (simp add: binned_count_def)
qed

lemma real_sum_list: "real (\<Sum>x\<leftarrow>xs. f x) = (\<Sum>x\<leftarrow>xs. real (f x))"
  by (induction xs) simp_all

lemma pair_count_le_binned_count:
  assumes "j < nat (num + 2)"
  shows "pair_count t i (int j) \<le> binned_count t num i"
proof -
  have "int j \<le> num + 1" using assms by linarith
  then show ?thesis
    unfolding pair_count_def binned_count_def
    by (induction t) auto
qed

lemma binned_count_le_length: "binned_count t num i \<le> length t"
  by (simp add: binned_count_def)

text \<open>Adding natural numbers in float64 is exact as long as the total stays below \<open>2^53\<close>.\<close>

lemma foldl_fl_add_nat:
  assumes "a + sum_list ns < 2 ^ 53"
  shows "foldl fl_add (real a) (map real ns) = real (a + sum_list ns)"
  using assms
proof (induction ns arbitrary: a)
  case Nil
  then show ?case by simp
next
  case (Cons n ns)
  have "a + n < 2 ^ 53" using Cons.prems by simp
  then have "fl_add (real a) (real n) = real (a + n)"
    using round64_nat [of "a + n"] by (simp add: fl_add_def)
  moreover have "(a + n) + sum_list ns < 2 ^ 53" using Cons.prems by simp
  ultimately show ?case
    using Cons.IH [of "a + n"] by (simp add: add.assoc)
qed

lemma fill_matrix_entry_exact:
  assumes "j < nat (num + 2)" "i < ncols" "length t < 2 ^ 53"
  shows "fill_matrix t (nat (num + 2)) ncols ! j ! i = real (pair_count t (int i) (int j))"
proof -
  have "pair_count t (int i) (int j) \<le> length t"
    by (simp add: pair_count_def)
  then have "pair_count t (int i) (int j) < 2 ^ 53"
    using assms(3) by simp
  then show ?thesis
    using fill_matrix_entry [OF assms(1,2)] round64_nat by simp
qed

lemma sum_axis0_binned:
  assumes "0 \<le> num + 1" "i < nat (num + 1)" "length t < 2 ^ 53"
  shows "sum_axis0 (nat (num + 1)) (fill_matrix t (nat (num + 2)) (nat (num + 1))) ! i
           = real (binned_count t num (int i))"
proof -
  let ?R = "nat (num + 2)" and ?C = "nat (num + 1)"
  let ?E = "fill_matrix t ?R ?C"
  let ?ns = "map (\<lambda>j. pair_count t (int i) (int j)) [0..<?R]"
  have sum: "sum_list ?ns = binned_count t num (int i)"
    using binned_count_sum [OF assms(1), of t "int i"] by simp
  have "map (\<lambda>row. row ! i) ?E = map (\<lambda>j. ?E ! j ! i) [0..<length ?E]"
    by (rule nth_equalityI) simp_all
  also have "\<dots> = map (\<lambda>j. real (pair_count t (int i) (int j))) [0..<?R]"
    using assms(2,3) by (simp add: fill_matrix_shape(1) fill_matrix_entry_exact)
  also have "\<dots> = map real ?ns"
    by (simp add: comp_def)
  finally have col: "map (\<lambda>row. row ! i) ?E = map real ?ns" .
  have "0 + sum_list ?ns < 2 ^ 53"
    using sum binned_count_le_length [of t num "int i"] assms(3) by simp
  then have "foldl fl_add (real 0) (map real ?ns) = real (0 + sum_list ?ns)"
    by (rule foldl_fl_add_nat)
  then show ?thesis
    using assms(2) sum col by (simp add: sum_axis0_def)
qed

lemma normalize_columns_shape:
  assumes "\<forall>r\<in>set m. length r = c" "length nrm = c"
  shows "length (normalize_columns m nrm) = length m"
    "\<forall>r\<in>set (normalize_columns m nrm). length r = c"
  using assms by (auto simp: normalize_columns_def)

text \<open>The matrix returned, entry by entry, for a table whose counts float64 holds exactly.\<close>

lemma eff_matrix_value:
  assumes "0 \<le> num + 1" "list_all (\<lambda>r. 2 \<le> length r) t" "length t < 2 ^ 53"
  shows "get_detection_eff_matrix t num =
           Inr (map (\<lambda>j. map (\<lambda>i. binned_eff_entry t num (int i) (int j)) [0..<nat (num + 1)])
                    [0..<nat (num + 2)])"
proof -
  let ?R = "nat (num + 2)" and ?C = "nat (num + 1)"
  let ?E = "fill_matrix t ?R ?C"
  let ?nrm = "zero_to_one (sum_axis0 ?C ?E)"
  have len_nrm: "length ?nrm = ?C"
    by (simp add: zero_to_one_def sum_axis0_def)
  have nrm: "?nrm ! i = (if binned_count t num (int i) = 0 then 1 else real (binned_count t num (int i)))"
    if "i < ?C" for i
    using that sum_axis0_binned [OF assms(1) that assms(3)]
    by (simp add: zero_to_one_def sum_axis0_def)
  have row: "map (\<lambda>(e, n). fl_mul (fl_div e n) 100) (zip (?E ! j) ?nrm)
              = map (\<lambda>i. binned_eff_entry t num (int i) (int j)) [0..<?C]" if "j < ?R" for j
  proof (rule nth_equalityI)
    have lj: "length (?E ! j) = ?C"
      using fill_matrix_shape [of t ?R ?C] that by simp
    show "length (map (\<lambda>(e, n). fl_mul (fl_div e n) 100) (zip (?E ! j) ?nrm)) 
            = length (map (\<lambda>i. binned_eff_entry t num (int i) (int j)) [0..<?C])"
      using lj len_nrm by simp
    fix i assume "i < length (map (\<lambda>(e, n). fl_mul (fl_div e n) 100) (zip (?E ! j) ?nrm))"
    then have i: "i < ?C" using lj len_nrm by simp
    then show "map (\<lambda>(e, n). fl_mul (fl_div e n) 100) (zip (?E ! j) ?nrm) ! i
            = map (\<lambda>i. binned_eff_entry t num (int i) (int j)) [0..<?C] ! i"
      using lj len_nrm nrm [OF i] fill_matrix_entry_exact [OF that i assms(3)]
        pair_count_le_binned_count [OF that, of t "int i"]
      by (simp add: binned_eff_entry_def fl_mul_def fl_div_def round64_def)
  qed
  have "normalize_columns ?E ?nrm
          = map (\<lambda>j. map (\<lambda>(e, n). fl_mul (fl_div e n) 100) (zip (?E ! j) ?nrm)) [0..<length ?E]"
    unfolding normalize_columns_def by (rule nth_equalityI) simp_all
  also have "\<dots> = map (\<lambda>j. map (\<lambda>i. binned_eff_entry t num (int i) (int j)) [0..<?C]) [0..<?R]"
    using row by (simp add: fill_matrix_shape(1))
  finally show ?thesis
    using assms by (simp add: get_detection_eff_matrix_def Let_def)
qed

text \<open>
  Each percentage is within two roundings of \<open>100 * c / n\<close>, so a column lies within
  \<open>100 * (2 u + u\<^sup>2)\<close> of 100, for \<open>u = 2^(-53)\<close>.
\<close>

lemma percentage_error:
  assumes "0 < n" "c \<le> n" "n < 2 ^ 53"
  shows "\<bar>fl_mul (fl_div (real c) (real n)) 100 - 100 * (real c / real n)\<bar>
           \<le> 100 * (real c / real n) * (2 / 2 ^ 53 + 1 / 2 ^ 106)"
proof (cases "c = 0")
  case True
  then show ?thesis by (simp add: fl_mul_def fl_div_def round64_def)
next
  case False
  define q where "q = real c / real n"
  define u :: real where "u = 1 / 2 ^ 53"
  define a where "a = round64 q"
  have n53: "real n < 2 ^ 53"
    using assms(3) by (metis of_nat_less_iff of_nat_numeral of_nat_power)
  have "1 / real n \<le> q"
    unfolding q_def using False assms(1) by (simp add: divide_right_mono)
  moreover have "1 / 2 ^ 53 < 1 / real n"
    using n53 assms(1) by (simp add: frac_less2)
  ultimately have qlo: "u < q" unfolding u_def by linarith
  have u: "0 < u" "u < 1 / 2" by (simp_all add: u_def)
  have q0: "0 < q" using qlo u(1) by linarith
  have small: "pow2 (- 1022) \<le> pow2 (- 53)" by (rule pow2_mono) simp
  have p53: "pow2 (- 53) = u" by (simp add: pow2_def u_def)
  have "pow2 (- 1022) \<le> \<bar>q\<bar>" using small p53 qlo q0 by linarith
  then have ea: "\<bar>a - q\<bar> \<le> q * u"
    using round64_error [of q] q0 by (simp add: a_def u_def)
  have alo: "q * (1 - u) \<le> a" and ahi: "a \<le> q * (1 + u)"
    using ea by (simp_all add: abs_le_iff algebra_simps)
  have "q * (1 / 2) \<le> q * (1 - u)" using q0 u by (intro mult_left_mono) auto
  then have a_half: "q / 2 \<le> a" using alo by simp
  then have a0: "0 < a" using q0 by linarith
  have "pow2 (- 53) \<le> a * 100" using a_half qlo p53 u(1) by linarith
  then have "pow2 (- 1022) \<le> \<bar>a * 100\<bar>" using small a0 by linarith
  then have "\<bar>round64 (a * 100) - a * 100\<bar> \<le> a * 100 * u"
    using round64_error [of "a * 100"] a0 by (simp add: u_def)
  moreover have "a * 100 * u \<le> q * (1 + u) * 100 * u"
    using ahi u(1) by (intro mult_right_mono) auto
  ultimately have e1: "\<bar>round64 (a * 100) - a * 100\<bar> \<le> q * (1 + u) * 100 * u" by linarith
  have e2: "\<bar>a * 100 - 100 * q\<bar> \<le> 100 * (q * u)"
    using ea by (simp add: abs_le_iff algebra_simps)
  have "\<bar>round64 (a * 100) - 100 * q\<bar> \<le> q * (1 + u) * 100 * u + 100 * (q * u)"
    using e1 e2 by linarith
  also have "\<dots> = 100 * q * (2 * u + u * u)" by (simp add: algebra_simps)
  also have "2 * u + u * u = 2 / 2 ^ 53 + 1 / 2 ^ 106" by (simp add: u_def)
  finally show ?thesis
    by (simp add: fl_mul_def fl_div_def a_def q_def)
qed

lemma binned_column_sum:
  assumes "0 \<le> num + 1" "binned_count t num i \<noteq> 0" "length t < 2 ^ 53"
  shows "\<bar>(\<Sum>j\<leftarrow>[0..<nat (num + 2)]. binned_eff_entry t num i (int j)) - 100\<bar> \<le> 1 / 2 ^ 45"
proof -
  let ?N = "binned_count t num i"
  let ?js = "[0..<nat (num + 2)]"
  let ?q = "\<lambda>j. real (pair_count t i (int j)) / real ?N"
  let ?w = "2 / 2 ^ 53 + 1 / 2 ^ (106::nat) :: real"
  have N: "0 < ?N" "?N < 2 ^ 53"
    using assms(2,3) binned_count_le_length [of t num i] by simp_all
  have total: "(\<Sum>j\<leftarrow>?js. ?q j) = 1"
  proof -
    have "(\<Sum>j\<leftarrow>?js. ?q j) = (\<Sum>j\<leftarrow>?js. (1 / real ?N) * real (pair_count t i (int j)))"
      by simp
    also have "\<dots> = (1 / real ?N) * (\<Sum>j\<leftarrow>?js. real (pair_count t i (int j)))"
      by (rule sum_list_const_mult)
    also have "(\<Sum>j\<leftarrow>?js. real (pair_count t i (int j))) = real ?N"
      unfolding binned_count_sum [OF assms(1)] by (rule real_sum_list [symmetric])
    finally show ?thesis using N(1) by simp
  qed
  have each: "\<bar>binned_eff_entry t num i (int j) - 100 * ?q j\<bar> \<le> 100 * ?q j * ?w"
    if "j \<in> set ?js" for j
  proof -
    have "j < nat (num + 2)" using that by simp
    then have "pair_count t i (int j) \<le> ?N" by (rule pair_count_le_binned_count)
    then show ?thesis
      using percentage_error [OF N(1) _ N(2)] assms(2) by (simp add: binned_eff_entry_def)
  qed
  have "(\<Sum>j\<leftarrow>?js. binned_eff_entry t num i (int j)) - 100
          = (\<Sum>j\<leftarrow>?js. binned_eff_entry t num i (int j) - 100 * ?q j)"
  proof -
    have "(\<Sum>j\<leftarrow>?js. 100 * ?q j) = 100 * (\<Sum>j\<leftarrow>?js. ?q j)"
      by (rule sum_list_const_mult)
    then show ?thesis
      using total by (simp add: sum_list_subtractf)
  qed
  then have "\<bar>(\<Sum>j\<leftarrow>?js. binned_eff_entry t num i (int j)) - 100\<bar>
          \<le> (\<Sum>j\<leftarrow>?js. \<bar>binned_eff_entry t num i (int j) - 100 * ?q j\<bar>)"
    using sum_list_abs [of "map (\<lambda>j. binned_eff_entry t num i (int j) - 100 * ?q j) ?js"]
    by (simp add: comp_def)
  also have "\<dots> \<le> (\<Sum>j\<leftarrow>?js. 100 * ?q j * ?w)"
    using each by (intro sum_list_mono) auto
  also have "\<dots> = 100 * ?w * (\<Sum>j\<leftarrow>?js. ?q j)"
  proof -
    have "(\<Sum>j\<leftarrow>?js. 100 * ?q j * ?w) = (\<Sum>j\<leftarrow>?js. (100 * ?w) * ?q j)"
      by (simp add: mult_ac)
    also have "\<dots> = (100 * ?w) * (\<Sum>j\<leftarrow>?js. ?q j)"
      by (rule sum_list_const_mult)
    finally show ?thesis .
  qed
  also have "\<dots> \<le> 1 / 2 ^ 45"
    unfolding total by simp
  finally show ?thesis .
qed

text \<open>Percentages and matrices evaluated on small tables.\<close>

lemma pct_zero: "fl_mul (fl_div 0 n) 100 = 0"
  by (simp add: fl_mul_def fl_div_def round64_def)

lemma pct_1_1: "fl_mul (fl_div 1 1) 100 = 100"
  using round64_nat [of 1] round64_nat [of 100] by (simp add: fl_mul_def fl_div_def)

lemma round64_third: "round64 (1 / 3) = 6004799503160661 / 2 ^ 54"
proof -
  have "round64 (1 / 3) = of_int (round_half_even ((1 / 3) / pow2 (- 2 - 52))) * pow2 (- 2 - 52)"
    by (rule round64_binade) (simp_all add: pow2_def)
  also have "\<dots> = 6004799503160661 / 2 ^ 54"
    by (simp add: pow2_def round_half_even_def)
  finally show ?thesis .
qed

lemma round64_two_thirds: "round64 (2 / 3) = 6004799503160661 / 2 ^ 53"
proof -
  have "round64 (2 / 3) = of_int (round_half_even ((2 / 3) / pow2 (- 1 - 52))) * pow2 (- 1 - 52)"
    by (rule round64_binade) (simp_all add: pow2_def)
  also have "\<dots> = 6004799503160661 / 2 ^ 53"
    by (simp add: pow2_def round_half_even_def)
  finally show ?thesis .
qed

lemma pct_1_3: "fl_mul (fl_div 1 3) 100 = 4691249611844266 / 2 ^ 47"
proof -
  let ?x = "6004799503160661 / 2 ^ 54 * 100 :: real"
  have "round64 ?x = of_int (round_half_even (?x / pow2 (5 - 52))) * pow2 (5 - 52)"
    by (rule round64_binade) (simp_all add: pow2_def)
  also have "\<dots> = 4691249611844266 / 2 ^ 47"
    by (simp add: pow2_def round_half_even_def)
  finally show ?thesis
    by (simp add: fl_mul_def fl_div_def round64_third)
qed

lemma pct_2_3: "fl_mul (fl_div 2 3) 100 = 4691249611844266 / 2 ^ 46"
proof -
  let ?x = "6004799503160661 / 2 ^ 53 * 100 :: real"
  have "round64 ?x = of_int (round_half_even (?x / pow2 (6 - 52))) * pow2 (6 - 52)"
    by (rule round64_binade) (simp_all add: pow2_def)
  also have "\<dots> = 4691249611844266 / 2 ^ 46"
    by (simp add: pow2_def round_half_even_def)
  finally show ?thesis
    by (simp add: fl_mul_def fl_div_def round64_two_thirds)
qed

lemma ex_matrix_divisor:
  "get_detection_eff_matrix [[1, 0, 0, 0, 0], [1, 5, 0, 0, 0]] 1 = Inr [[0, 100], [0, 0], [0, 0]]"
proof -
  have n: "nat (1 + 1) = Suc (Suc 0)" "nat (1 + 2) = Suc (Suc (Suc 0))" by simp_all
  show ?thesis
    by (subst eff_matrix_value)
       (simp_all add: n binned_eff_entry_def binned_count_def pair_count_def pct_1_1 pct_zero
          upt_conv_Cons del: upt_Suc)
qed

lemma ex_matrix_thirds:
  "get_detection_eff_matrix
     [[1, 0, 0, 0, 0], [1, 1, 0, 0, 0], [1, 1, 0, 0, 0], [2, 7, 0, 0, 0]] 2
   = Inr [[0, 4691249611844266 / 2 ^ 47, 0], [0, 4691249611844266 / 2 ^ 46, 0],
          [0, 0, 0], [0, 0, 0]]"
proof -
  have n: "nat (2 + 1) = Suc (Suc (Suc 0))" "nat (2 + 2) = Suc (Suc (Suc (Suc 0)))" by simp_all
  show ?thesis
    by (subst eff_matrix_value)
       (simp_all add: n binned_eff_entry_def binned_count_def pair_count_def pct_1_3 pct_2_3 pct_zero
          upt_conv_Cons del: upt_Suc)
qed

text \<open>
  Claim C8. For every integer \<open>num \<ge> 0\<close> and every summary table (with at least the two
  columns that are read), \<open>get_detection_eff_matrix\<close> returns an array of shape
  \<open>(num + 2, num + 1)\<close>: \<open>num + 2\<close> rows (detected counts \<open>0..num + 1\<close>), each of
  \<open>num + 1\<close> entries (true counts \<open>0..num\<close>).
\<close>

theorem eff_matrix_shape:
  assumes "0 \<le> num" "list_all (\<lambda>r. 2 \<le> length r) t"
  shows "\<exists>m. get_detection_eff_matrix t num = Inr m
             \<and> length m = nat (num + 2) \<and> (\<forall>r\<in>set m. length r = nat (num + 1))"
proof -
  let ?R = "nat (num + 2)" and ?C = "nat (num + 1)"
  let ?E = "fill_matrix t ?R ?C"
  let ?nrm = "zero_to_one (sum_axis0 ?C ?E)"
  have "length ?nrm = ?C"
    by (simp add: zero_to_one_def sum_axis0_def)
  then have "length (normalize_columns ?E ?nrm) = ?R"
    and "\<forall>r\<in>set (normalize_columns ?E ?nrm). length r = ?C"
    using normalize_columns_shape [OF fill_matrix_shape(2) [of t ?R ?C], of ?nrm]
      fill_matrix_shape(1) [of t ?R ?C] by simp_all
  then show ?thesis
    using assms by (simp add: get_detection_eff_matrix_def Let_def)
qed

theorem eff_matrix_shape_witness:
  "(0::int) \<le> 0 \<and> list_all (\<lambda>r. 2 \<le> length r) [[1, 1, 0, 0, 0], [1, 0, 0, 0, 0 :: int]]
   \<and> (\<exists>m. get_detection_eff_matrix [[1, 1, 0, 0, 0], [1, 0, 0, 0, 0]] 0 = Inr m
             \<and> length m = nat (0 + 2) \<and> (\<forall>r\<in>set m. length r = nat (0 + 1)))"
  using eff_matrix_shape [of 0 "[[1, 1, 0, 0, 0], [1, 0, 0, 0, 0]]"] by simp

text \<open>
  Claim C1, as amended. For \<open>num \<ge> 1\<close>, \<open>0 \<le> i \<le> num\<close>, \<open>0 \<le> j \<le> num + 1\<close> and a table of
  fewer than \<open>2^53\<close> rows (float64 then holds every count exactly), entry \<open>[j, i]\<close> of the
  returned matrix is the float64 value of \<open>(c / n) * 100\<close>, the quotient rounded and then
  the product rounded, where \<open>c\<close> is the number of rows with true count \<open>i\<close> and detected
  count \<open>j\<close> and \<open>n\<close> the number of rows with true count \<open>i\<close> whose detected count lies
  in \<open>0..num + 1\<close> (the column sum of the tabulated counts); it is 0 for every \<open>j\<close> when
  there is no such row. Every column is all zeros or sums to 100 up to the rounding,
  within \<open>2^(-45)\<close>.
\<close>

theorem eff_matrix_entries:
  assumes "1 \<le> num" "list_all (\<lambda>r. 2 \<le> length r) t" "length t < 2 ^ 53"
    and "0 \<le> i" "i \<le> num" "0 \<le> j" "j \<le> num + 1"
  shows "\<exists>m. get_detection_eff_matrix t num = Inr m
           \<and> m ! nat j ! nat i
               = (if binned_count t num i = 0 then 0
                  else fl_mul (fl_div (real (pair_count t i j)) (real (binned_count t num i))) 100)
           \<and> (if binned_count t num i = 0
                then \<forall>j'<nat (num + 2). m ! j' ! nat i = 0
                else \<bar>(\<Sum>j'\<leftarrow>[0..<nat (num + 2)]. m ! j' ! nat i) - 100\<bar> \<le> 1 / 2 ^ 45)"
proof -
  let ?m = "map (\<lambda>j. map (\<lambda>i. binned_eff_entry t num (int i) (int j)) [0..<nat (num + 1)])
                    [0..<nat (num + 2)]"
  have val: "get_detection_eff_matrix t num = Inr ?m"
    using assms(1,2,3) by (simp add: eff_matrix_value)
  have i: "nat i < nat (num + 1)" and j: "nat j < nat (num + 2)"
    using assms by linarith+
  have ent: "?m ! j' ! nat i = binned_eff_entry t num i (int j')" if "j' < nat (num + 2)" for j'
    using that i assms(4) by simp
  have e1: "?m ! nat j ! nat i
               = (if binned_count t num i = 0 then 0
                  else fl_mul (fl_div (real (pair_count t i j)) (real (binned_count t num i))) 100)"
    using ent [OF j] assms(6) by (simp add: binned_eff_entry_def)
  have e3: "\<forall>j'<nat (num + 2). ?m ! j' ! nat i = 0" if "binned_count t num i = 0"
    using that ent by (simp add: binned_eff_entry_def)
  have "(\<Sum>j'\<leftarrow>[0..<nat (num + 2)]. ?m ! j' ! nat i)
          = (\<Sum>j'\<leftarrow>[0..<nat (num + 2)]. binned_eff_entry t num i (int j'))"
    by (rule arg_cong [where f = sum_list], rule map_cong [OF refl]) (use ent in simp)
  then have e4: "\<bar>(\<Sum>j'\<leftarrow>[0..<nat (num + 2)]. ?m ! j' ! nat i) - 100\<bar> \<le> 1 / 2 ^ 45"
    if "binned_count t num i \<noteq> 0"
    using that assms(1,3) binned_column_sum [of num t i] by simp
  show ?thesis
    using val e1 e3 e4 by (intro exI [of _ ?m]) simp
qed

theorem eff_matrix_entries_witness:
  "(1::int) \<le> 2
   \<and> list_all (\<lambda>r. 2 \<le> length r) [[1, 0, 0, 0, 0], [1, 1, 0, 0, 0], [1, 1, 0, 0, 0], [2, 7, 0, 0, 0 :: int]]
   \<and> length [[1, 0, 0, 0, 0], [1, 1, 0, 0, 0], [1, 1, 0, 0, 0], [2, 7, 0, 0, 0 :: int]] < 2 ^ 53
   \<and> (0::int) \<le> 1 \<and> (1::int) \<le> 2 \<and> (0::int) \<le> 1 \<and> (1::int) \<le> 2 + 1
   \<and> (\<exists>m. get_detection_eff_matrix [[1, 0, 0, 0, 0], [1, 1, 0, 0, 0], [1, 1, 0, 0, 0], [2, 7, 0, 0, 0]] 2 = Inr m
           \<and> m ! 1 ! 1 = 4691249611844266 / 2 ^ 46
           \<and> \<bar>(\<Sum>j'\<leftarrow>[0..<4]. m ! j' ! 1) - 100\<bar> \<le> 1 / 2 ^ 45)"
proof -
  let ?t = "[[1, 0, 0, 0, 0], [1, 1, 0, 0, 0], [1, 1, 0, 0, 0], [2, 7, 0, 0, 0 :: int]]"
  have wf: "list_all (\<lambda>r. 2 \<le> length r) ?t" by simp
  have len: "length ?t < 2 ^ 53" by simp
  have b: "binned_count ?t 2 1 = 3" "pair_count ?t 1 1 = 2"
    by (simp_all add: binned_count_def pair_count_def)
  have n: "nat (2 + 2) = 4" by simp
  obtain m where "get_detection_eff_matrix ?t 2 = Inr m" "m ! 1 ! 1 = 4691249611844266 / 2 ^ 46"
      "\<bar>(\<Sum>j'\<leftarrow>[0..<4]. m ! j' ! 1) - 100\<bar> \<le> 1 / 2 ^ 45"
    using eff_matrix_entries [of 2 ?t 1 1, OF _ wf len]
    by (auto simp add: b n pct_2_3 simp del: upt_Suc)
  then have "\<exists>m. get_detection_eff_matrix ?t 2 = Inr m \<and> m ! 1 ! 1 = 4691249611844266 / 2 ^ 46
           \<and> \<bar>(\<Sum>j'\<leftarrow>[0..<4]. m ! j' ! 1) - 100\<bar> \<le> 1 / 2 ^ 45"
    by blast
  then show ?thesis
    by (intro conjI wf len) simp_all
qed

text \<open>
  Two ways in which the entry is not \<open>100 * c / (number of rows with true count i)\<close> and
  the column sum not exactly 100. A row whose detected count exceeds \<open>num + 1\<close> is counted
  by the specification's divisor and not by the code's: with \<open>num = 1\<close> and the rows
  (1, 0) and (1, 5), entry \<open>[0, 1]\<close> is 100, where the specification's formula gives 50.
  And the entries are rounded: with three rows of true count 1, detected once 0 and twice
  1, entry \<open>[1, 1]\<close> is the float64 number 66.66666666666666 (not \<open>200 / 3\<close>) and column 1
  sums to \<open>100 - 2^(-46)\<close>.
\<close>

theorem eff_matrix_entries_counterexample:
  "get_detection_eff_matrix [[1, 0, 0, 0, 0], [1, 5, 0, 0, 0]] 1 = Inr [[0, 100], [0, 0], [0, 0]]
   \<and> spec_eff_entry [[1, 0, 0, 0, 0], [1, 5, 0, 0, 0]] 1 0 = 50
   \<and> get_detection_eff_matrix
        [[1, 0, 0, 0, 0], [1, 1, 0, 0, 0], [1, 1, 0, 0, 0], [2, 7, 0, 0, 0]] 2
      = Inr [[0, 4691249611844266 / 2 ^ 47, 0], [0, 4691249611844266 / 2 ^ 46, 0],
             [0, 0, 0], [0, 0, 0]]
   \<and> spec_eff_entry [[1, 0, 0, 0, 0], [1, 1, 0, 0, 0], [1, 1, 0, 0, 0], [2, 7, 0, 0, 0]] 1 1
      = 200 / 3
   \<and> (4691249611844266 / 2 ^ 46 :: real) \<noteq> 200 / 3
   \<and> (4691249611844266 / 2 ^ 47 + 4691249611844266 / 2 ^ 46 + 0 + 0 :: real) \<noteq> 100"
proof -
  have "spec_eff_entry [[1, 0, 0, 0, 0], [1, 5, 0, 0, 0]] 1 0 = 50"
    by (simp add: spec_eff_entry_def true_count_def pair_count_def)
  moreover have "spec_eff_entry [[1, 0, 0, 0, 0], [1, 1, 0, 0, 0], [1, 1, 0, 0, 0], [2, 7, 0, 0, 0]] 1 1
      = 200 / 3"
    by (simp add: spec_eff_entry_def true_count_def pair_count_def)
  moreover have "(4691249611844266 / 2 ^ 46 :: real) \<noteq> 200 / 3"
    "(4691249611844266 / 2 ^ 47 + 4691249611844266 / 2 ^ 46 + 0 + 0 :: real) \<noteq> 100"
    by simp_all
  ultimately show ?thesis
    using ex_matrix_divisor ex_matrix_thirds by simp
qed

section \<open>Properties of the selection cuts\<close>

lemma np_where_rows: "rows_at t (np_where (map P t)) = filter P t"
proof -
  have "np_where (map P t) = filter (\<lambda>k. P (t ! k)) [0..<length t]"
    unfolding np_where_def by (auto intro: filter_cong)
  then show ?thesis
    unfolding rows_at_def by (simp only: filter_nth_upt)
qed

lemma basic_selection_filter: "basic_selection_function catalog = filter selection_cut catalog"
  by (simp add: basic_selection_function_def np_where_rows)

lemma hypot_le_iff: "hypot x y \<le> c \<longleftrightarrow> 0 \<le> c \<and> x\<^sup>2 + y\<^sup>2 \<le> c\<^sup>2"
proof -
  have nn: "0 \<le> x\<^sup>2 + y\<^sup>2" by simp
  show ?thesis
  proof (cases "0 \<le> c")
    case True
    then show ?thesis
      unfolding hypot_def using real_sqrt_le_iff [of "x\<^sup>2 + y\<^sup>2" "c\<^sup>2"] by simp
  next
    case False
    then have "c < sqrt (x\<^sup>2 + y\<^sup>2)"
      using real_sqrt_ge_zero [OF nn] by linarith
    then show ?thesis using False by (simp add: hypot_def)
  qed
qed

lemma hypot_gt_iff: "hypot x y > c \<longleftrightarrow> c < 0 \<or> x\<^sup>2 + y\<^sup>2 > c\<^sup>2"
  using hypot_le_iff [where x = x and y = y and c = c] by auto

lemma size_cond_code: 
  "size_cond g \<longleftrightarrow> (a_d g)\<^sup>2 + (a_b g)\<^sup>2 \<le> 4 \<and> (a_d g)\<^sup>2 + (a_b g)\<^sup>2 > 1 / 25"
proof -
  have "hypot (a_d g) (a_b g) \<le> 2 \<longleftrightarrow> (a_d g)\<^sup>2 + (a_b g)\<^sup>2 \<le> 4"
    using hypot_le_iff [where x = "a_d g" and y = "a_b g" and c = 2] by simp
  moreover have "hypot (a_d g) (a_b g) > 0.2 \<longleftrightarrow> (a_d g)\<^sup>2 + (a_b g)\<^sup>2 > 1 / 25"
  proof -
    have "hypot (a_d g) (a_b g) > 0.2 \<longleftrightarrow> (a_d g)\<^sup>2 + (a_b g)\<^sup>2 > (0.2)\<^sup>2"
      using hypot_gt_iff [where x = "a_d g" and y = "a_b g" and c = "0.2"] by simp
    also have "((0.2::real))\<^sup>2 = 1 / 25"
      by (simp add: power2_eq_square)
    finally show ?thesis .
  qed
  ultimately show ?thesis
    unfolding size_cond_def Let_def by blast
qed

lemma selection_cut_code:
  "selection_cut g \<longleftrightarrow>
     (let s = fluxnorm_disk g + fluxnorm_bulge g
      in s \<noteq> 0 \<and>
         (let f = fluxnorm_bulge g / s
          in 0 \<le> f \<and> f \<le> 1
             \<and> (a_d g * 4.66)\<^sup>2 * (1 - f) + (a_b g * 1.46)\<^sup>2 * f \<le> 16
             \<and> i_ab g \<le> 27))"
proof -
  define f where "f = fluxnorm_bulge g / (fluxnorm_disk g + fluxnorm_bulge g)"
  have sq: "(a_d g * sqrt (1 - f) * 4.66)\<^sup>2 + (a_b g * sqrt f * 1.46)\<^sup>2
            = (a_d g * 4.66)\<^sup>2 * (1 - f) + (a_b g * 1.46)\<^sup>2 * f"
    if "0 \<le> f" "f \<le> 1"
  proof -
    have r: "(sqrt (1 - f))\<^sup>2 = 1 - f" "(sqrt f)\<^sup>2 = f"
      using that by simp_all
    have e: "(a * s * k)\<^sup>2 = (a * k)\<^sup>2 * s\<^sup>2" for a s k :: real
      by (simp only: power_mult_distrib mult_ac)
    show ?thesis
      unfolding e r ..
  qed
  have "hypot (a_d g * sqrt (1 - f) * 4.66) (a_b g * sqrt f * 1.46) \<le> 4
          \<longleftrightarrow> (a_d g * 4.66)\<^sup>2 * (1 - f) + (a_b g * 1.46)\<^sup>2 * f \<le> 16"
    if "0 \<le> f" "f \<le> 1"
    using hypot_le_iff [where c = 4 and x = "a_d g * sqrt (1 - f) * 4.66" and y = "a_b g * sqrt f * 1.46"]
      sq [OF that] by simp
  then show ?thesis
    unfolding selection_cut_def r_sec_def Let_def f_def [symmetric]
    by (auto split: option.splits if_splits)
qed

text \<open>
  Claim C10. Every row returned by \<open>basic_selection_function\<close> has a second-moment size
  \<open>r_sec \<le> 4\<close> and \<open>i_ab \<le> 27\<close>, and applying the function to its own output returns that
  output unchanged (the same rows in the same order).
\<close>

theorem basic_selection_idempotent:
  "(\<forall>g\<in>set (basic_selection_function catalog).
       \<exists>r. r_sec g = Some r \<and> r \<le> 4 \<and> i_ab g \<le> 27)
   \<and> basic_selection_function (basic_selection_function catalog)
        = basic_selection_function catalog"
proof
  show "\<forall>g\<in>set (basic_selection_function catalog).
          \<exists>r. r_sec g = Some r \<and> r \<le> 4 \<and> i_ab g \<le> 27"
    by (auto simp: basic_selection_filter selection_cut_def split: option.splits)
  show "basic_selection_function (basic_selection_function catalog)
          = basic_selection_function catalog"
    by (simp add: basic_selection_filter)
qed

theorem basic_selection_idempotent_witness:
  "basic_selection_function [ex_bright, ex_noflux] = [ex_bright]
   \<and> (\<exists>r. r_sec ex_bright = Some r \<and> r \<le> 4 \<and> i_ab ex_bright \<le> 27)
   \<and> basic_selection_function [ex_bright] = [ex_bright]"
proof -
  have v: "basic_selection_function [ex_bright, ex_noflux] = [ex_bright]"
    by (simp add: basic_selection_filter selection_cut_code ex_bright_def ex_noflux_def
        power2_eq_square)
  note t = basic_selection_idempotent [of "[ex_bright, ex_noflux]", unfolded v]
  have "\<exists>r. r_sec ex_bright = Some r \<and> r \<le> 4 \<and> i_ab ex_bright \<le> 27"
    using t by simp
  then show ?thesis
    using v t by blast
qed

section \<open>Properties of \<open>basic_sampling_function\<close>\<close>

lemma set_np_where: "set (np_where (map P t)) = {k. k < length t \<and> P (t ! k)}"
  by (auto simp: np_where_def)

lemma choice_empty: "choice raw [] n = Inl ValueError"
  by (simp add: choice_def)

lemma choice_Inr:
  assumes "choice raw a n = Inr ks"
  shows "a \<noteq> []" "length ks = n" "set ks \<subseteq> set a"
    "\<And>k. k < n \<Longrightarrow> ks ! k = a ! (raw k mod length a)"
  using assms by (auto simp: choice_def split: if_splits)

lemma choice_nonempty: "a \<noteq> [] \<Longrightarrow> \<exists>ks. choice raw a n = Inr ks"
  by (simp add: choice_def)

lemma iadd_Inr:
  assumes "iadd col d = Inr c"
  shows "shape_ok d (length col)" "length c = length col"
    "\<And>k. k < length col \<Longrightarrow> c ! k = col ! k + offset_at d (length col) k"
  using assms by (auto simp: iadd_def shape_ok_def split: if_splits)

lemma iadd_Inl: "iadd col d = Inl e \<Longrightarrow> e = ValueError \<and> \<not> shape_ok d (length col)"
  by (auto simp: iadd_def shape_ok_def split: if_splits)

lemma iadd_shape_ok: "shape_ok d (length col) \<Longrightarrow> \<exists>c. iadd col d = Inr c"
  by (auto simp: iadd_def shape_ok_def)

lemma iadd_ra_Inr:
  assumes "iadd_ra t d = Inr t'"
  shows "shape_ok d (length t)" "length t' = length t"
    "\<And>k. k < length t \<Longrightarrow> t' ! k = (t ! k)\<lparr>ra := ra (t ! k) + offset_at d (length t) k\<rparr>"
proof -
  from assms obtain c where c: "iadd (map ra t) d = Inr c" and t': "t' = set_ra t c"
    by (auto simp: iadd_ra_def split: sum.splits)
  show "shape_ok d (length t)" using iadd_Inr(1) [OF c] by simp
  show "length t' = length t" using iadd_Inr(2) [OF c] t' by (simp add: set_ra_def)
  show "t' ! k = (t ! k)\<lparr>ra := ra (t ! k) + offset_at d (length t) k\<rparr>" if "k < length t" for k
    using iadd_Inr(2,3) [OF c] that t' by (simp add: set_ra_def)
qed

lemma iadd_dec_Inr:
  assumes "iadd_dec t d = Inr t'"
  shows "shape_ok d (length t)" "length t' = length t"
    "\<And>k. k < length t \<Longrightarrow> t' ! k = (t ! k)\<lparr>dec := dec (t ! k) + offset_at d (length t) k\<rparr>"
proof -
  from assms obtain c where c: "iadd (map dec t) d = Inr c" and t': "t' = set_dec t c"
    by (auto simp: iadd_dec_def split: sum.splits)
  show "shape_ok d (length t)" using iadd_Inr(1) [OF c] by simp
  show "length t' = length t" using iadd_Inr(2) [OF c] t' by (simp add: set_dec_def)
  show "t' ! k = (t ! k)\<lparr>dec := dec (t ! k) + offset_at d (length t) k\<rparr>" if "k < length t" for k
    using iadd_Inr(2,3) [OF c] that t' by (simp add: set_dec_def)
qed

lemma iadd_ra_Inl: "iadd_ra t d = Inl e \<Longrightarrow> e = ValueError \<and> \<not> shape_ok d (length t)"
  using iadd_Inl [of "map ra t" d e] by (auto simp: iadd_ra_def split: sum.splits)

lemma iadd_dec_Inl: "iadd_dec t d = Inl e \<Longrightarrow> e = ValueError \<and> \<not> shape_ok d (length t)"
  using iadd_Inl [of "map dec t" d e] by (auto simp: iadd_dec_def split: sum.splits)

lemma iadd_ra_shape_ok: "shape_ok d (length t) \<Longrightarrow> \<exists>t'. iadd_ra t d = Inr t'"
  using iadd_shape_ok [of d "map ra t"] by (auto simp: iadd_ra_def)

lemma iadd_dec_shape_ok: "shape_ok d (length t) \<Longrightarrow> \<exists>t'. iadd_dec t d = Inr t'"
  using iadd_shape_ok [of d "map dec t"] by (auto simp: iadd_dec_def)

lemma set_q_bright_rows:
  "set (q_bright_rows catalog) = {k. k < length catalog \<and> size_cond (catalog ! k) \<and> i_ab (catalog ! k) \<le> 24}"
  unfolding q_bright_rows_def by (simp add: set_np_where)

lemma set_q_rows_subset: "set (q_rows u catalog) \<subseteq> {k. k < length catalog}"
  unfolding q_rows_def by (auto simp: set_np_where)

lemma q_bright_subset_q: "set (q_bright_rows catalog) \<subseteq> set (q_rows u catalog)"
  unfolding q_bright_rows_def q_rows_def by (auto simp: set_np_where)

lemma q_bright_nonempty_iff:
  "q_bright_rows catalog \<noteq> [] \<longleftrightarrow> (\<exists>g\<in>set catalog. size_cond g \<and> i_ab g \<le> 24)"
proof -
  have "q_bright_rows catalog \<noteq> [] \<longleftrightarrow> set (q_bright_rows catalog) \<noteq> {}"
    by simp
  also have "\<dots> \<longleftrightarrow> (\<exists>k<length catalog. size_cond (catalog ! k) \<and> i_ab (catalog ! k) \<le> 24)"
    unfolding set_q_bright_rows by auto
  also have "\<dots> \<longleftrightarrow> (\<exists>g\<in>set catalog. size_cond g \<and> i_ab g \<le> 24)"
    by (metis in_set_conv_nth)
  finally show ?thesis .
qed

lemma basic_sampling_Inr:
  assumes "basic_sampling_function shift rnd Args catalog = Inr bc"
  shows "\<exists>first others dx dy shifted.
           0 < max_number Args
         \<and> choice (raw_bright rnd) (q_bright_rows catalog) 1 = Inr first
         \<and> choice (raw_others rnd) (q_rows (raw_uniform rnd) catalog)
              (raw_number rnd mod nat (max_number Args)) = Inr others
         \<and> shift Args (raw_number rnd mod nat (max_number Args) + 1)
              (basic_maxshift Args (raw_number rnd mod nat (max_number Args))) = (dx, dy)
         \<and> iadd_ra (map (\<lambda>g. g\<lparr>ra := 0, dec := 0\<rparr>) (rows_at catalog first @ rows_at catalog others)) dx
              = Inr shifted
         \<and> iadd_dec shifted dy = Inr bc"
  using assms unfolding basic_sampling_function_def Let_def
  by (auto split: if_splits sum.splits prod.splits)

lemma basic_sampling_rows:
  assumes "basic_sampling_function shift rnd Args catalog = Inr bc"
  defines "n \<equiv> raw_number rnd mod nat (max_number Args)"
  shows "0 < max_number Args" "length bc = Suc n"
    "\<exists>dx dy. shift Args (Suc n) (basic_maxshift Args n) = (dx, dy)
        \<and> shape_ok dx (Suc n) \<and> shape_ok dy (Suc n)
        \<and> (\<forall>k<Suc n. \<exists>g\<in>set catalog.
              bc ! k = g\<lparr>ra := offset_at dx (Suc n) k, dec := offset_at dy (Suc n) k\<rparr>)"
    "i_ab (bc ! 0) \<le> 24"
proof -
  from basic_sampling_Inr [OF assms(1)] obtain first others dx dy shifted where
    pos: "0 < max_number Args"
    and f: "choice (raw_bright rnd) (q_bright_rows catalog) 1 = Inr first"
    and o: "choice (raw_others rnd) (q_rows (raw_uniform rnd) catalog) n = Inr others"
    and sh: "shift Args (Suc n) (basic_maxshift Args n) = (dx, dy)"
    and r: "iadd_ra (map (\<lambda>g. g\<lparr>ra := 0, dec := 0\<rparr>) (rows_at catalog first @ rows_at catalog others)) dx
              = Inr shifted"
    and d: "iadd_dec shifted dy = Inr bc"
    unfolding n_def by auto
  let ?stacked = "rows_at catalog first @ rows_at catalog others"
  let ?blend = "map (\<lambda>g. g\<lparr>ra := 0, dec := 0\<rparr>) ?stacked"
  have lf: "length first = 1" and lo: "length others = n"
    using choice_Inr(2) [OF f] choice_Inr(2) [OF o] by simp_all
  have len_st: "length ?stacked = Suc n"
    using lf lo by (simp add: rows_at_def)
  have len_bl: "length ?blend = Suc n" using len_st by simp
  have len_sh: "length shifted = Suc n"
    using iadd_ra_Inr(2) [OF r] len_bl by simp
  show "0 < max_number Args" by (rule pos)
  show len_bc: "length bc = Suc n"
    using iadd_dec_Inr(2) [OF d] len_sh by simp
  have first_in: "set first \<subseteq> set (q_bright_rows catalog)"
    by (rule choice_Inr(3) [OF f])
  have others_in: "set others \<subseteq> {k. k < length catalog}"
    using choice_Inr(3) [OF o] set_q_rows_subset by blast
  have st_in: "set ?stacked \<subseteq> set catalog"
    using first_in others_in by (auto simp: rows_at_def set_q_bright_rows)
  have ent: "bc ! k = (?stacked ! k)\<lparr>ra := offset_at dx (Suc n) k, dec := offset_at dy (Suc n) k\<rparr>"
    if "k < Suc n" for k
  proof -
    have "shifted ! k = (?blend ! k)\<lparr>ra := ra (?blend ! k) + offset_at dx (Suc n) k\<rparr>"
      using iadd_ra_Inr(3) [OF r, of k] that len_bl by simp
    moreover have "bc ! k = (shifted ! k)\<lparr>dec := dec (shifted ! k) + offset_at dy (Suc n) k\<rparr>"
      using iadd_dec_Inr(3) [OF d, of k] that len_sh by simp
    moreover have "?blend ! k = (?stacked ! k)\<lparr>ra := 0, dec := 0\<rparr>"
      using that len_st by (simp del: map_append)
    ultimately show ?thesis by simp
  qed
  have "\<forall>k<Suc n. \<exists>g\<in>set catalog.
              bc ! k = g\<lparr>ra := offset_at dx (Suc n) k, dec := offset_at dy (Suc n) k\<rparr>"
  proof (intro allI impI)
    fix k assume k: "k < Suc n"
    then have "?stacked ! k \<in> set catalog"
      using st_in len_st nth_mem [of k ?stacked] by auto
    then show "\<exists>g\<in>set catalog.
              bc ! k = g\<lparr>ra := offset_at dx (Suc n) k, dec := offset_at dy (Suc n) k\<rparr>"
      using ent [OF k] by blast
  qed
  moreover have "shape_ok dx (Suc n)" using iadd_ra_Inr(1) [OF r] len_bl by simp
  moreover have "shape_ok dy (Suc n)" using iadd_dec_Inr(1) [OF d] len_sh by simp
  ultimately show "\<exists>dx dy. shift Args (Suc n) (basic_maxshift Args n) = (dx, dy)
        \<and> shape_ok dx (Suc n) \<and> shape_ok dy (Suc n)
        \<and> (\<forall>k<Suc n. \<exists>g\<in>set catalog.
              bc ! k = g\<lparr>ra := offset_at dx (Suc n) k, dec := offset_at dy (Suc n) k\<rparr>)"
    using sh by blast
  have "first ! 0 \<in> set (q_bright_rows catalog)"
    using first_in lf nth_mem [of 0 first] by auto
  then have "i_ab (catalog ! (first ! 0)) \<le> 24"
    by (simp add: set_q_bright_rows)
  moreover have "?stacked ! 0 = catalog ! (first ! 0)"
    using lf by (simp add: rows_at_def nth_append)
  ultimately show "i_ab (bc ! 0) \<le> 24"
    using ent [of 0] by simp
qed

lemma basic_sampling_Inl:
  assumes "basic_sampling_function shift rnd Args catalog = Inl e" "0 < max_number Args"
  defines "n \<equiv> raw_number rnd mod nat (max_number Args)"
  shows "e = ValueError"
    "q_bright_rows catalog = []
     \<or> \<not> shape_ok (fst (shift Args (Suc n) (basic_maxshift Args n))) (Suc n)
     \<or> \<not> shape_ok (snd (shift Args (Suc n) (basic_maxshift Args n))) (Suc n)"
proof -
  show "e = ValueError"
    using assms(1,2) unfolding basic_sampling_function_def Let_def
    by (auto simp: choice_def dest: iadd_ra_Inl iadd_dec_Inl split: if_splits sum.splits prod.splits)
  show "q_bright_rows catalog = []
     \<or> \<not> shape_ok (fst (shift Args (Suc n) (basic_maxshift Args n))) (Suc n)
     \<or> \<not> shape_ok (snd (shift Args (Suc n) (basic_maxshift Args n))) (Suc n)"
  proof (rule ccontr)
    assume "\<not> ?thesis"
    then have b: "q_bright_rows catalog \<noteq> []"
      and sx: "shape_ok (fst (shift Args (Suc n) (basic_maxshift Args n))) (Suc n)"
      and sy: "shape_ok (snd (shift Args (Suc n) (basic_maxshift Args n))) (Suc n)"
      by auto
    obtain dx dy where sh: "shift Args (Suc n) (basic_maxshift Args n) = (dx, dy)"
      by (cases "shift Args (Suc n) (basic_maxshift Args n)") auto
    obtain first where f: "choice (raw_bright rnd) (q_bright_rows catalog) 1 = Inr first"
      using choice_nonempty [OF b] by blast
    have "q_rows (raw_uniform rnd) catalog \<noteq> []"
      using b q_bright_subset_q [of catalog "raw_uniform rnd"] by auto
    then obtain others where
      o: "choice (raw_others rnd) (q_rows (raw_uniform rnd) catalog) n = Inr others"
      using choice_nonempty by blast
    let ?blend = "map (\<lambda>g. g\<lparr>ra := 0, dec := 0\<rparr>) (rows_at catalog first @ rows_at catalog others)"
    have len_bl: "length ?blend = Suc n"
      using choice_Inr(2) [OF f] choice_Inr(2) [OF o] by (simp add: rows_at_def)
    obtain shifted where r: "iadd_ra ?blend dx = Inr shifted"
      using iadd_ra_shape_ok [of dx ?blend] sx sh len_bl by auto
    have "length shifted = Suc n"
      using iadd_ra_Inr(2) [OF r] len_bl by simp
    then obtain bc where d: "iadd_dec shifted dy = Inr bc"
      using iadd_dec_shape_ok [of dy shifted] sy sh by auto
    have "basic_sampling_function shift rnd Args catalog = Inr bc"
      using assms(2) f o sh r d
      unfolding basic_sampling_function_def Let_def n_def by simp
    then show False using assms(1) by simp
  qed
qed

lemmas sampler_eval =
  basic_sampling_function_def Let_def q_bright_rows_def q_rows_def np_where_def size_cond_code
  choice_def rows_at_def iadd_ra_def iadd_dec_def iadd_def offset_at_def set_ra_def set_dec_def
  ex_bright_def ex_faint_def ex_args_def ex_shift_def ex_draws_one_def ex_draws_two_def
  power2_eq_square

lemma ex_two_rows:
  "basic_sampling_function ex_shift ex_draws_two ex_args [ex_bright, ex_faint]
     = Inr [ex_bright\<lparr>ra := 1 / 2, dec := - 1 / 2\<rparr>, ex_faint\<lparr>ra := 1 / 2, dec := - 1 / 2\<rparr>]"
  by (simp add: sampler_eval)

lemma ex_one_row:
  "basic_sampling_function ex_shift ex_draws_one ex_args [ex_bright, ex_faint]
     = Inr [ex_bright\<lparr>ra := 1 / 2, dec := - 1 / 2\<rparr>]"
  by (simp add: sampler_eval)

text \<open>
  Claim C5. For \<open>max_number \<ge> 1\<close>, a blend catalog returned by \<open>basic_sampling_function\<close>
  has between 1 and \<open>max_number\<close> rows, each of them a row of the input catalog with new
  \<open>ra\<close> and \<open>dec\<close>, at least one of them with \<open>i_ab \<le> 24\<close>, and the \<open>ra\<close> and \<open>dec\<close> of
  row \<open>k\<close> are the offsets \<open>dx[k]\<close> and \<open>dy[k]\<close> that \<open>get_random_center_shift\<close> returned.
  The function raises (ValueError) instead of returning only when the catalog has no row
  with \<open>i_ab \<le> 24\<close> within the size cut, or when the offsets do not have the shape of the
  columns.
\<close>

theorem basic_sampling_blend:
  assumes "1 \<le> max_number Args"
  shows "case basic_sampling_function shift rnd Args catalog of
           Inr bc \<Rightarrow>
             1 \<le> length bc \<and> int (length bc) \<le> max_number Args
             \<and> (\<forall>b\<in>set bc. \<exists>g\<in>set catalog. \<exists>x y. b = g\<lparr>ra := x, dec := y\<rparr>)
             \<and> (\<exists>b\<in>set bc. i_ab b \<le> 24)
             \<and> (\<exists>dx dy. shift Args (length bc) (basic_maxshift Args (length bc - 1)) = (dx, dy)
                   \<and> (\<forall>k<length bc. ra (bc ! k) = offset_at dx (length bc) k
                                     \<and> dec (bc ! k) = offset_at dy (length bc) k))
         | Inl e \<Rightarrow>
             e = ValueError
             \<and> (let n = raw_number rnd mod nat (max_number Args);
                     (dx, dy) = shift Args (Suc n) (basic_maxshift Args n)
                 in \<not> (\<exists>g\<in>set catalog. size_cond g \<and> i_ab g \<le> 24)
                    \<or> \<not> shape_ok dx (Suc n) \<or> \<not> shape_ok dy (Suc n))"
proof (cases "basic_sampling_function shift rnd Args catalog")
  case (Inl e)
  have pos: "0 < max_number Args" using assms by simp
  show ?thesis
    using basic_sampling_Inl [OF Inl pos] Inl
    by (auto simp: Let_def q_bright_nonempty_iff [symmetric] split: prod.splits)
next
  case (Inr bc)
  define n where "n = raw_number rnd mod nat (max_number Args)"
  note rows = basic_sampling_rows [OF Inr, folded n_def]
  have len: "length bc = Suc n" by (rule rows(2))
  have "n < nat (max_number Args)"
    unfolding n_def using assms by simp
  then have le: "int (length bc) \<le> max_number Args"
    using len by linarith
  obtain dx dy where sh: "shift Args (Suc n) (basic_maxshift Args n) = (dx, dy)"
    and ent: "\<forall>k<Suc n. \<exists>g\<in>set catalog.
                bc ! k = g\<lparr>ra := offset_at dx (Suc n) k, dec := offset_at dy (Suc n) k\<rparr>"
    using rows(3) by blast
  have orig: "\<forall>b\<in>set bc. \<exists>g\<in>set catalog. \<exists>x y. b = g\<lparr>ra := x, dec := y\<rparr>"
  proof
    fix b assume "b \<in> set bc"
    then obtain k where "k < Suc n" "b = bc ! k"
      using len by (auto simp: in_set_conv_nth)
    then show "\<exists>g\<in>set catalog. \<exists>x y. b = g\<lparr>ra := x, dec := y\<rparr>"
      using ent by blast
  qed
  have "bc ! 0 \<in> set bc" using len by simp
  then have bright: "\<exists>b\<in>set bc. i_ab b \<le> 24"
    using rows(4) by blast
  have offs: "\<forall>k<length bc. ra (bc ! k) = offset_at dx (length bc) k
                           \<and> dec (bc ! k) = offset_at dy (length bc) k"
  proof (intro allI impI)
    fix k assume "k < length bc"
    then have "k < Suc n" using len by simp
    then obtain g where "bc ! k = g\<lparr>ra := offset_at dx (Suc n) k, dec := offset_at dy (Suc n) k\<rparr>"
      using ent by blast
    then show "ra (bc ! k) = offset_at dx (length bc) k \<and> dec (bc ! k) = offset_at dy (length bc) k"
      using len by simp
  qed
  have "\<exists>dx dy. shift Args (length bc) (basic_maxshift Args (length bc - 1)) = (dx, dy)
                   \<and> (\<forall>k<length bc. ra (bc ! k) = offset_at dx (length bc) k
                                     \<and> dec (bc ! k) = offset_at dy (length bc) k)"
    using sh offs len by auto
  then show ?thesis
    using Inr len le orig bright by simp
qed

theorem basic_sampling_blend_witness:
  "1 \<le> max_number ex_args
   \<and> basic_sampling_function ex_shift ex_draws_two ex_args [ex_bright, ex_faint]
       = Inr [ex_bright\<lparr>ra := 1 / 2, dec := - 1 / 2\<rparr>, ex_faint\<lparr>ra := 1 / 2, dec := - 1 / 2\<rparr>]
   \<and> (case basic_sampling_function ex_shift ex_draws_two ex_args [ex_bright, ex_faint] of
         Inr bc \<Rightarrow>
             1 \<le> length bc \<and> int (length bc) \<le> max_number ex_args
             \<and> (\<forall>b\<in>set bc. \<exists>g\<in>set [ex_bright, ex_faint]. \<exists>x y. b = g\<lparr>ra := x, dec := y\<rparr>)
             \<and> (\<exists>b\<in>set bc. i_ab b \<le> 24)
             \<and> (\<exists>dx dy. ex_shift ex_args (length bc) (basic_maxshift ex_args (length bc - 1)) = (dx, dy)
                   \<and> (\<forall>k<length bc. ra (bc ! k) = offset_at dx (length bc) k
                                     \<and> dec (bc ! k) = offset_at dy (length bc) k))
       | Inl e \<Rightarrow>
             e = ValueError
             \<and> (let n = raw_number ex_draws_two mod nat (max_number ex_args);
                     (dx, dy) = ex_shift ex_args (Suc n) (basic_maxshift ex_args n)
                 in \<not> (\<exists>g\<in>set [ex_bright, ex_faint]. size_cond g \<and> i_ab g \<le> 24)
                    \<or> \<not> shape_ok dx (Suc n) \<or> \<not> shape_ok dy (Suc n)))"
proof -
  have h: "1 \<le> max_number ex_args" by (simp add: ex_args_def)
  have v: "basic_sampling_function ex_shift ex_draws_two ex_args [ex_bright, ex_faint]
       = Inr [ex_bright\<lparr>ra := 1 / 2, dec := - 1 / 2\<rparr>, ex_faint\<lparr>ra := 1 / 2, dec := - 1 / 2\<rparr>]"
    by (simp add: sampler_eval)
  note t = basic_sampling_blend [OF h, where shift = ex_shift and rnd = ex_draws_two
        and catalog = "[ex_bright, ex_faint]"]
  show ?thesis
    by (rule conjI [OF h conjI [OF v t]])
qed

section \<open>Properties of \<open>group_sampling_function\<close>\<close>

subsection \<open>Drawing without replacement\<close>




subsection \<open>Stages of the group sampler\<close>

lemma set_np_unique: "set (np_unique xs) = set xs"
  by (simp add: np_unique_def)


lemma sample_group_id_Inl:
  assumes "sample_group_id rnd wld = Inl e"
  shows "e = ValueError \<and> \<not> (\<exists>w\<in>set wld. 2 \<le> grp_size w)"
proof -
  let ?ids = "np_unique (map grp_id (filter (\<lambda>w. grp_size w \<ge> 2) wld))"
  have "e = ValueError" and "?ids = []"
    using assms by (auto simp: sample_group_id_def Let_def split: if_splits)
  then have "set ?ids = {}" by simp
  then have "\<not> (\<exists>w\<in>set wld. 2 \<le> grp_size w)"
    unfolding set_np_unique by auto
  then show ?thesis using \<open>e = ValueError\<close> by simp
qed





lemma shift_group_Inl:
  assumes "shift_group shift Args t = Inl e"
  shows "e = ValueError
       \<and> \<not> (length (fst (shift Args 1 (3 * pixel_scale Args))) = 1
            \<and> length (snd (shift Args 1 (3 * pixel_scale Args))) = 1)"
proof -
  obtain dx dy where sh: "shift Args 1 (3 * pixel_scale Args) = (dx, dy)"
    by (cases "shift Args 1 (3 * pixel_scale Args)") auto
  show ?thesis
  proof (cases "iadd_ra t dx")
    case (Inl e')
    then show ?thesis
      using assms iadd_ra_Inl [OF Inl] unfolding shift_group_def sh
      by (auto simp: shape_ok_def)
  next
    case (Inr t1)
    then have "iadd_dec t1 dy = Inl e"
      using assms unfolding shift_group_def sh by simp
    then show ?thesis
      using iadd_dec_Inl [of t1 dy e] sh by (auto simp: shape_ok_def)
  qed
qed


lemma cut_and_select_empty:
  "filter (in_stamp Args) t = [] \<Longrightarrow> cut_and_select rnd Args t = Inr []"
  by (simp add: cut_and_select_def Let_def)

lemma cut_and_select_total:
  "0 \<le> max_number Args \<Longrightarrow> \<exists>bc. cut_and_select rnd Args t = Inr bc"
  by (auto simp: cut_and_select_def Let_def min_def)

lemma cut_and_select_Inl:
  "cut_and_select rnd Args t = Inl e \<Longrightarrow> e = ValueError \<and> max_number Args < 0"
  by (auto simp: cut_and_select_def Let_def split: if_splits)


lemma group_sampling_Inl:
  assumes "group_sampling_function table_read shift rnd Args catalog = Inl e"
  shows "(e = MissingWldCatalogName \<and> wld_catalog_name Args = None)
       \<or> (e = IOError \<and> (\<exists>name. wld_catalog_name Args = Some name \<and> table_read name = None))
       \<or> (e = ValueError \<and> (\<exists>name wld. wld_catalog_name Args = Some name
              \<and> table_read name = Some wld
              \<and> (\<not> (\<exists>w\<in>set wld. 2 \<le> grp_size w)
                 \<or> \<not> (length (fst (shift Args 1 (3 * pixel_scale Args))) = 1
                      \<and> length (snd (shift Args 1 (3 * pixel_scale Args))) = 1)
                 \<or> max_number Args < 0)))"
proof (cases "wld_catalog_name Args")
  case None
  then show ?thesis
    using assms by (simp add: group_sampling_function_def)
next
  case (Some name)
  show ?thesis
  proof (cases "table_read name")
    case None
    then show ?thesis
      using assms Some by (simp add: group_sampling_function_def)
  next
    case (Some wld)
    note rd = \<open>wld_catalog_name Args = Some name\<close> Some
    show ?thesis
    proof (cases "sample_group_id rnd wld")
      case (Inl e')
      then have "e = e'"
        using assms rd by (simp add: group_sampling_function_def)
      then show ?thesis
        using sample_group_id_Inl [OF Inl] rd by simp
    next
      case (Inr gid)
      let ?t = "recentre (group_members wld gid catalog)"
      show ?thesis
      proof (cases "shift_group shift Args ?t")
        case (Inl e')
        then have "e = e'"
          using assms rd Inr by (simp add: group_sampling_function_def)
        then show ?thesis
          using shift_group_Inl [OF Inl] rd by simp
      next
        case shifted: (Inr shifted)
        then have "cut_and_select rnd Args shifted = Inl e"
          using assms rd Inr by (simp add: group_sampling_function_def)
        then show ?thesis
          using cut_and_select_Inl rd by blast
      qed
    qed
  qed
qed

lemma shift_group_total:
  assumes "length (fst (shift Args 1 (3 * pixel_scale Args))) = 1"
    and "length (snd (shift Args 1 (3 * pixel_scale Args))) = 1"
  shows "\<exists>shifted. shift_group shift Args t = Inr shifted"
proof (cases "shift_group shift Args t")
  case (Inl e)
  then show ?thesis
    using shift_group_Inl [OF Inl] assms by simp
next
  case (Inr shifted)
  then show ?thesis by simp
qed

lemma sample_group_id_total:
  assumes "\<exists>w\<in>set wld. 2 \<le> grp_size w"
  shows "\<exists>gid. sample_group_id rnd wld = Inr gid"
proof (cases "sample_group_id rnd wld")
  case (Inl e)
  then show ?thesis
    using sample_group_id_Inl [OF Inl] assms by simp
next
  case (Inr gid)
  then show ?thesis by simp
qed

lemmas group_eval =
  group_sampling_function_def sample_group_id_def np_unique_def group_members_def recentre_def
  np_mean_def shift_group_def cut_and_select_def in_stamp_def Let_def rows_at_def
  iadd_ra_def iadd_dec_def iadd_def offset_at_def set_ra_def set_dec_def
  ex_wld_def ex_reader_def ex_group_args_def ex_small_stamp_args_def
  ex_isolated_args_def ex_group_draws_def ex_args_def ex_shift_def ex_bright_def ex_faint_def

lemma ex_group_blend:
  "group_sampling_function ex_reader ex_shift ex_group_draws ex_group_args [ex_bright, ex_faint]
     = Inr [ex_bright\<lparr>ra := - 97 / 256, dec := - 353 / 256\<rparr>,
            ex_faint\<lparr>ra := 353 / 256, dec := 97 / 256\<rparr>]"
  by (simp add: group_eval numeral_2_eq_2)

lemma ex_group_empty:
  "group_sampling_function ex_reader ex_shift ex_group_draws ex_small_stamp_args [ex_bright, ex_faint]
     = Inr []"
  by (simp add: group_eval)

lemma ex_group_isolated:
  "group_sampling_function ex_reader ex_shift ex_group_draws ex_isolated_args [ex_bright, ex_faint]
     = Inl ValueError"
  by (simp add: group_eval)










text \<open>
  Claim C9, as amended. \<open>group_sampling_function\<close> raises its own exception (no
  \<open>wld_catalog_name\<close>) exactly when \<open>Args\<close> has no attribute \<open>wld_catalog_name\<close>. When
  the attribute is present, the WLD catalog is read, it has a group of size at least 2
  and \<open>get_random_center_shift\<close> returns one offset in \<open>dx\<close> and one in \<open>dy\<close>, then: with
  \<open>max_number \<ge> 0\<close> no exception is raised; and whenever every member of the sampled
  group fails the stamp-boundary cut, the empty table is returned (whatever
  \<open>max_number\<close> is).
\<close>

theorem group_sampling_raises:
  "(group_sampling_function table_read shift rnd Args catalog = Inl MissingWldCatalogName
      \<longleftrightarrow> wld_catalog_name Args = None)
   \<and> (\<forall>name wld.
         wld_catalog_name Args = Some name \<and> table_read name = Some wld
         \<and> (\<exists>w\<in>set wld. 2 \<le> grp_size w)
         \<and> length (fst (shift Args 1 (3 * pixel_scale Args))) = 1
         \<and> length (snd (shift Args 1 (3 * pixel_scale Args))) = 1
         \<longrightarrow> (0 \<le> max_number Args
                \<longrightarrow> (\<exists>bc. group_sampling_function table_read shift rnd Args catalog = Inr bc))
           \<and> (\<exists>gid shifted.
                 sample_group_id rnd wld = Inr gid
               \<and> shift_group shift Args (recentre (group_members wld gid catalog)) = Inr shifted
               \<and> ((\<forall>g\<in>set shifted. \<not> in_stamp Args g)
                    \<longrightarrow> group_sampling_function table_read shift rnd Args catalog = Inr [])))"
proof (intro conjI allI impI)
  show "group_sampling_function table_read shift rnd Args catalog = Inl MissingWldCatalogName
      \<longleftrightarrow> wld_catalog_name Args = None"
  proof
    assume "group_sampling_function table_read shift rnd Args catalog = Inl MissingWldCatalogName"
    from group_sampling_Inl [OF this] show "wld_catalog_name Args = None"
      by simp
  next
    assume "wld_catalog_name Args = None"
    then show "group_sampling_function table_read shift rnd Args catalog = Inl MissingWldCatalogName"
      by (simp add: group_sampling_function_def)
  qed
next
  fix name wld
  assume a: "wld_catalog_name Args = Some name \<and> table_read name = Some wld
         \<and> (\<exists>w\<in>set wld. 2 \<le> grp_size w)
         \<and> length (fst (shift Args 1 (3 * pixel_scale Args))) = 1
         \<and> length (snd (shift Args 1 (3 * pixel_scale Args))) = 1"
  obtain gid where gid: "sample_group_id rnd wld = Inr gid"
    using sample_group_id_total a by blast
  obtain shifted where sh:
    "shift_group shift Args (recentre (group_members wld gid catalog)) = Inr shifted"
    using shift_group_total a by blast
  have eq: "group_sampling_function table_read shift rnd Args catalog
              = cut_and_select rnd Args shifted"
    using a gid sh by (simp add: group_sampling_function_def)
  {
    assume "0 \<le> max_number Args"
    then show "\<exists>bc. group_sampling_function table_read shift rnd Args catalog = Inr bc"
      unfolding eq by (rule cut_and_select_total)
  }
  have "(\<forall>g\<in>set shifted. \<not> in_stamp Args g)
          \<longrightarrow> group_sampling_function table_read shift rnd Args catalog = Inr []"
    unfolding eq by (auto intro: cut_and_select_empty simp: filter_empty_conv)
  then show "\<exists>gid shifted.
                 sample_group_id rnd wld = Inr gid
               \<and> shift_group shift Args (recentre (group_members wld gid catalog)) = Inr shifted
               \<and> ((\<forall>g\<in>set shifted. \<not> in_stamp Args g)
                    \<longrightarrow> group_sampling_function table_read shift rnd Args catalog = Inr [])"
    using gid sh by blast
qed

theorem group_sampling_raises_witness:
  "wld_catalog_name ex_small_stamp_args = Some ''wld.fits''
   \<and> ex_reader ''wld.fits'' = Some ex_wld
   \<and> (\<exists>w\<in>set ex_wld. 2 \<le> grp_size w)
   \<and> length (fst (ex_shift ex_small_stamp_args 1 (3 * pixel_scale ex_small_stamp_args))) = 1
   \<and> length (snd (ex_shift ex_small_stamp_args 1 (3 * pixel_scale ex_small_stamp_args))) = 1
   \<and> 0 \<le> max_number ex_small_stamp_args
   \<and> (\<exists>bc. group_sampling_function ex_reader ex_shift ex_group_draws ex_small_stamp_args
              [ex_bright, ex_faint] = Inr bc)
   \<and> group_sampling_function ex_reader ex_shift ex_group_draws ex_small_stamp_args
        [ex_bright, ex_faint] \<noteq> Inl MissingWldCatalogName"
proof -
  have h: "wld_catalog_name ex_small_stamp_args = Some ''wld.fits''"
    "ex_reader ''wld.fits'' = Some ex_wld"
    "\<exists>w\<in>set ex_wld. 2 \<le> grp_size w"
    "length (fst (ex_shift ex_small_stamp_args 1 (3 * pixel_scale ex_small_stamp_args))) = 1"
    "length (snd (ex_shift ex_small_stamp_args 1 (3 * pixel_scale ex_small_stamp_args))) = 1"
    "0 \<le> max_number ex_small_stamp_args"
    by (simp_all add: ex_small_stamp_args_def ex_group_args_def ex_args_def ex_reader_def
        ex_wld_def ex_shift_def)
  note t = group_sampling_raises [where table_read = ex_reader and shift = ex_shift
      and rnd = ex_group_draws and Args = ex_small_stamp_args and catalog = "[ex_bright, ex_faint]"]
  have "\<exists>bc. group_sampling_function ex_reader ex_shift ex_group_draws ex_small_stamp_args
              [ex_bright, ex_faint] = Inr bc"
    using t h by blast
  moreover have "group_sampling_function ex_reader ex_shift ex_group_draws ex_small_stamp_args
        [ex_bright, ex_faint] \<noteq> Inl MissingWldCatalogName"
    using t h(1) by simp
  ultimately show ?thesis
    using h by blast
qed

text \<open>
  The attribute can be present, the file readable with all its columns, and the function
  still raise: with no group of size at least 2 in the WLD catalog,
  \<open>np.random.choice\<close> is given an empty array and raises ValueError.
\<close>

theorem group_sampling_raises_counterexample:
  "wld_catalog_name ex_isolated_args = Some ''isolated.fits''
   \<and> ex_reader ''isolated.fits'' = Some [\<lparr>db_id = 5, grp_id = 9, grp_size = 1\<rparr>]
   \<and> group_sampling_function ex_reader ex_shift ex_group_draws ex_isolated_args
        [ex_bright, ex_faint] = Inl ValueError"
  by (simp add: group_eval)

section \<open>Number of galaxies in a blend\<close>

text \<open>
  Claim C7, as amended. A blend catalog returned by \<open>basic_sampling_function\<close> has at least
  one row: the bright galaxy and \<open>number_of_objects\<close> further rows, where
  \<open>number_of_objects\<close> is drawn from \<open>0..max_number - 1\<close> and may be 0.
\<close>

theorem basic_sampling_at_least_one:
  assumes "basic_sampling_function shift rnd Args catalog = Inr bc"
  shows "1 \<le> length bc \<and> length bc = 1 + raw_number rnd mod nat (max_number Args)"
  using basic_sampling_rows(2) [OF assms] by simp

theorem basic_sampling_at_least_one_witness:
  "basic_sampling_function ex_shift ex_draws_one ex_args [ex_bright, ex_faint]
     = Inr [ex_bright\<lparr>ra := 1 / 2, dec := - 1 / 2\<rparr>]
   \<and> 1 \<le> length [ex_bright\<lparr>ra := 1 / 2, dec := - 1 / 2\<rparr>]
   \<and> length [ex_bright\<lparr>ra := 1 / 2, dec := - 1 / 2\<rparr>]
        = 1 + raw_number ex_draws_one mod nat (max_number ex_args)"
proof -
  have v: "basic_sampling_function ex_shift ex_draws_one ex_args [ex_bright, ex_faint]
     = Inr [ex_bright\<lparr>ra := 1 / 2, dec := - 1 / 2\<rparr>]"
    by (simp add: sampler_eval)
  show ?thesis
    using v basic_sampling_at_least_one [OF v] by (simp only: simp_thms)
qed

text \<open>
  A blend of two or more galaxies is not guaranteed: when the drawn
  \<open>number_of_objects\<close> is 0 the blend catalog is the single bright galaxy; and
  \<open>group_sampling_function\<close> returns the empty table when no member of the group passes
  the boundary cut.
\<close>

theorem basic_sampling_single_row_counterexample:
  "basic_sampling_function ex_shift ex_draws_one ex_args [ex_bright, ex_faint]
     = Inr [ex_bright\<lparr>ra := 1 / 2, dec := - 1 / 2\<rparr>]
   \<and> length [ex_bright\<lparr>ra := 1 / 2, dec := - 1 / 2\<rparr>] < 2
   \<and> group_sampling_function ex_reader ex_shift ex_group_draws ex_small_stamp_args
        [ex_bright, ex_faint] = Inr []"
proof -
  have "basic_sampling_function ex_shift ex_draws_one ex_args [ex_bright, ex_faint]
     = Inr [ex_bright\<lparr>ra := 1 / 2, dec := - 1 / 2\<rparr>]"
    by (simp add: sampler_eval)
  moreover have "group_sampling_function ex_reader ex_shift ex_group_draws ex_small_stamp_args
        [ex_bright, ex_faint] = Inr []"
    by (simp add: group_eval)
  ultimately show ?thesis by simp
qed

section \<open>Properties of the catalog loader\<close>

text \<open>
  Claim C3. \<open>load_catalog\<close> reads the file named by \<open>Args.catalog_name\<close>, as FITS when
  the extension given by \<open>os.path.splitext\<close> is \<open>.fits\<close> and as \<open>ascii.basic\<close> otherwise.
  With no selection function it returns the table as read; with a selection function it
  returns that function applied to the table as read, and nothing else.
\<close>

theorem load_catalog_result:
  "snd (load_catalog splitext table_read Args selection_function)
     = (case table_read (catalog_name Args)
               (if snd (splitext (catalog_name Args)) = ''.fits'' then Fits else AsciiBasic) of
          None \<Rightarrow> Inl IOError
        | Some table \<Rightarrow>
            (case selection_function of None \<Rightarrow> Inr table | Some f \<Rightarrow> f table))"
  by (simp add: load_catalog_def catalog_format_def Let_def split: option.splits prod.splits)

theorem load_catalog_result_witness:
  "snd (posix_splitext (catalog_name ex_args)) = ''.fits''
   \<and> snd (load_catalog posix_splitext ex_table_read ex_args None)
       = Inr [ex_bright, ex_faint, ex_noflux]
   \<and> snd (load_catalog posix_splitext ex_table_read ex_args
            (Some (\<lambda>t. Inr (basic_selection_function t))))
       = Inr (basic_selection_function [ex_bright, ex_faint, ex_noflux])"
proof -
  have e: "snd (posix_splitext (catalog_name ex_args)) = ''.fits''"
    unfolding ex_args_def by code_simp
  show ?thesis
    unfolding load_catalog_result e
    by (simp add: ex_table_read_def ex_args_def)
qed

end
